theory Spec2Isabelle
  imports Main "HOL-Library.AList" "HOL-Library.Multiset"
begin

section \<open>JavaScript values\<close>

text \<open>
  The server of \<^verbatim>\<open>src/server.ts\<close> inspects the values it is handed by its hooks, by the
  event-source engine and by the client only through \<^verbatim>\<open>typeof\<close>, truthiness, \<^verbatim>\<open>=== false\<close>,
  lodash's \<^verbatim>\<open>isObject\<close> and reads of the properties \<^verbatim>\<open>message\<close> and \<^verbatim>\<open>errors\<close>. The values
  are modelled as trees. Numbers are the integer-valued ones (\<^verbatim>\<open>NaN\<close> and fractions are not
  represented); an \<^verbatim>\<open>Error\<close> object is an object with a \<^verbatim>\<open>message\<close> property.
\<close>

datatype jsval =
    JUndefined
  | JNull
  | JBool bool
  | JNum int
  | JStr string
  | JObj "(string \<times> jsval) list"
  | JArr "jsval list"
  | JFunction

fun typeof_js :: "jsval \<Rightarrow> string" where
  "typeof_js JUndefined = ''undefined''"
| "typeof_js JNull = ''object''"
| "typeof_js (JBool b) = ''boolean''"
| "typeof_js (JNum n) = ''number''"
| "typeof_js (JStr s) = ''string''"
| "typeof_js (JObj kvs) = ''object''"
| "typeof_js (JArr xs) = ''object''"
| "typeof_js JFunction = ''function''"

fun truthy :: "jsval \<Rightarrow> bool" where
  "truthy JUndefined = False"
| "truthy JNull = False"
| "truthy (JBool b) = b"
| "truthy (JNum n) = (n \<noteq> 0)"
| "truthy (JStr s) = (s \<noteq> [])"
| "truthy (JObj kvs) = True"
| "truthy (JArr xs) = True"
| "truthy JFunction = True"

text \<open>Reading a property of \<^verbatim>\<open>undefined\<close> or \<^verbatim>\<open>null\<close> throws a TypeError.\<close>

fun nullish :: "jsval \<Rightarrow> bool" where
  "nullish JUndefined = True"
| "nullish JNull = True"
| "nullish v = False"

text \<open>
  \<open>prop_js v k\<close> is \<^verbatim>\<open>v[k]\<close> for a value that is not nullish and a key \<open>k\<close> that is no built-in
  property of a primitive, an array or a function (the server reads \<^verbatim>\<open>message\<close> and
  \<^verbatim>\<open>errors\<close> only). Every call site that can see a nullish value tests \<open>nullish\<close> first.
\<close>

fun prop_js :: "jsval \<Rightarrow> string \<Rightarrow> jsval" where
  "prop_js (JObj kvs) k = (case map_of kvs k of Some v \<Rightarrow> v | None \<Rightarrow> JUndefined)"
| "prop_js v k = JUndefined"

text \<open>lodash: \<^verbatim>\<open>value != null && (type == 'object' || type == 'function')\<close>.\<close>

definition isObject :: "jsval \<Rightarrow> bool" where
  "isObject v \<longleftrightarrow> \<not> nullish v \<and> (typeof_js v = ''object'' \<or> typeof_js v = ''function'')"

definition Error_js :: "string \<Rightarrow> jsval" where
  "Error_js text = JObj [(''message'', JStr text)]"

fun dec :: "nat \<Rightarrow> string" where
  "dec n = (if n < 10 then [char_of (48 + n)] else dec (n div 10) @ [char_of (48 + n mod 10)])"

text \<open>\<^verbatim>\<open>Object.assign({}, v)\<close> for a value with \<open>isObject v\<close>: the own enumerable properties.\<close>

fun object_assign_empty :: "jsval \<Rightarrow> jsval" where
  "object_assign_empty (JObj kvs) = JObj kvs"
| "object_assign_empty (JArr xs) = JObj (zip (map dec [0..<length xs]) xs)"
| "object_assign_empty v = JObj []"

section \<open>Messages\<close>

text \<open>
  The wire strings of the message types are constants of \<^verbatim>\<open>messageTypes\<close>, which is not among
  the sources; the server compares them only for equality, so they are the constructors of
  a datatype. \<open>OTHER_TYPE\<close> stands for every other \<^verbatim>\<open>type\<close> a client may send.
\<close>

datatype message_type =
    SUBSCRIPTION_FAIL
  | SUBSCRIPTION_DATA
  | SUBSCRIPTION_START
  | SUBSCRIPTION_END
  | SUBSCRIPTION_SUCCESS
  | KEEPALIVE
  | INIT
  | INIT_FAIL
  | INIT_SUCCESS
  | OTHER_TYPE string

text \<open>
  The interface \<^verbatim>\<open>SubscribeMessage\<close>. A message may come without an \<^verbatim>\<open>id\<close> (handshake
  messages do): \<open>None\<close> is \<^verbatim>\<open>undefined\<close>.
\<close>

record SubscribeMessage =
  payload :: jsval
  query :: jsval
  variables :: jsval
  operationName :: jsval
  msg_id :: "string option"
  msg_type :: message_type

text \<open>What \<^verbatim>\<open>JSON.parse(message, this.jsonReviver)\<close> gives: it throws an error with a message
  text, or returns a message.\<close>

datatype frame = Malformed string | Parsed SubscribeMessage

text \<open>The object a \<^verbatim>\<open>send*\<close> method hands to \<^verbatim>\<open>JSON.stringify\<close>; an absent field is
  \<open>JUndefined\<close>.\<close>

record out_message =
  out_type :: message_type
  out_id :: jsval
  out_payload :: jsval

text \<open>\<^verbatim>\<open>connectionSubscriptions[subId]\<close> converts \<^verbatim>\<open>subId\<close> to a property key.\<close>

definition subId_key :: "string option \<Rightarrow> string" where
  "subId_key i = (case i of None \<Rightarrow> ''undefined'' | Some k \<Rightarrow> k)"

definition subId_js :: "string option \<Rightarrow> jsval" where
  "subId_js i = (case i of None \<Rightarrow> JUndefined | Some k \<Rightarrow> JStr k)"

section \<open>Collaborators and effects\<close>

text \<open>
  A hook returns a value, throws, or returns a promise (a thenable) that the environment
  settles later. A hook is a function of its arguments; the connection argument is left out,
  since the model is of one connection.
\<close>

datatype hook_result = Returns jsval | Throws jsval | ReturnsPromise

datatype settle = Fulfil jsval | Reject jsval

text \<open>The promise of \<^verbatim>\<open>subscriptionManager.subscribe(params)\<close> resolves to a number.\<close>

datatype subscribe_result = Subscribed int | SubscribeFailed jsval

record ServerOptions =
  onSubscribe :: "(SubscribeMessage \<Rightarrow> jsval \<Rightarrow> hook_result) option"
  onUnsubscribe :: bool
  onConnect :: "(jsval \<Rightarrow> hook_result) option"
  onDisconnect :: bool

text \<open>
  The model is of one accepted connection: the sub-protocol check at acceptance and the
  keepalive timer are left out. The calls on the socket, the engine's \<^verbatim>\<open>unsubscribe\<close> and the
  after-unsubscribe and disconnect hooks are taken to return normally.
\<close>

text \<open>
  The calls the server makes on the socket, the engine, the hooks and the timer, in the
  order it makes them. \<open>EngineSubscribe p i\<close> is \<^verbatim>\<open>subscribe(params)\<close> with the params \<open>p\<close>
  whose \<^verbatim>\<open>callback\<close> has been set to the delivery callback of subscription id \<open>i\<close>.
\<close>

datatype effect =
    Send out_message
  | Close nat
  | Terminate
  | SetTimeout nat
  | EngineSubscribe jsval "string option"
  | EngineUnsubscribe int
  | Call_onConnect jsval
  | Call_onSubscribe SubscribeMessage jsval
  | Call_onUnsubscribe
  | Call_onDisconnect

section \<open>Connection state\<close>

text \<open>
  \<^verbatim>\<open>connectionContext.initPromise\<close> is pending until the first \<^verbatim>\<open>onInitResolve\<close>, then
  locked to the promise of the connect hook, then settled.
\<close>

datatype promise_state = Pending | Locked | Settled settle

text \<open>The callbacks that the message handler attaches to \<^verbatim>\<open>initPromise\<close> with \<^verbatim>\<open>then\<close>.\<close>

datatype reaction = OnInit | OnStart SubscribeMessage | OnEnd SubscribeMessage

text \<open>
  The continuations of the promise chains. A task is ready (its promise has settled and the
  runtime will run it) or waits for the environment to settle a promise of a hook or of the
  engine (\<open>AwaitConnect\<close>, \<open>AwaitParams\<close>, \<open>AwaitHandle\<close>).
\<close>

datatype task =
    AdoptConnect settle
  | AwaitConnect
  | InitRespond settle
  | StartSetup SubscribeMessage jsval
  | EndRun SubscribeMessage
  | AwaitParams SubscribeMessage
  | StartSubscribe SubscribeMessage settle
  | AwaitHandle SubscribeMessage
  | StartInstall SubscribeMessage int
  | StartFail SubscribeMessage jsval

text \<open>
  \<open>connectionSubscriptions\<close> lists the registry's entries; \<open>flushing\<close> holds the results
  whose \<^verbatim>\<open>send\<close> callback of \<^verbatim>\<open>sendInitResult\<close> has not been called yet, \<open>timers\<close> counts
  the timeouts set and not yet fired.
\<close>

record conn =
  initPromise :: promise_state
  reactions :: "reaction list"
  tasks :: "task list"
  connectionSubscriptions :: "(string \<times> int) list"
  flushing :: "out_message list"
  timers :: nat
  trace :: "effect list"

definition emit :: "effect list \<Rightarrow> conn \<Rightarrow> conn" where
  "emit es s = s\<lparr>trace := trace s @ es\<rparr>"

definition spawn :: "task list \<Rightarrow> conn \<Rightarrow> conn" where
  "spawn ts s = s\<lparr>tasks := tasks s @ ts\<rparr>"

text \<open>The state that \<^verbatim>\<open>onMessage(request, connectionSubscriptions, connectionContext)\<close>
  sets up for an accepted connection.\<close>

definition accepted :: conn where
  "accepted = \<lparr>initPromise = Pending, reactions = [], tasks = [],
     connectionSubscriptions = [], flushing = [], timers = 0, trace = []\<rparr>"

section \<open>Sending\<close>

definition sendSubscriptionData :: "jsval \<Rightarrow> jsval \<Rightarrow> conn \<Rightarrow> conn" where
  "sendSubscriptionData subId pl =
     emit [Send \<lparr>out_type = SUBSCRIPTION_DATA, out_id = subId, out_payload = pl\<rparr>]"

definition sendSubscriptionFail :: "jsval \<Rightarrow> jsval \<Rightarrow> conn \<Rightarrow> conn" where
  "sendSubscriptionFail subId pl =
     emit [Send \<lparr>out_type = SUBSCRIPTION_FAIL, out_id = subId, out_payload = pl\<rparr>]"

definition sendSubscriptionSuccess :: "jsval \<Rightarrow> conn \<Rightarrow> conn" where
  "sendSubscriptionSuccess subId =
     emit [Send \<lparr>out_type = SUBSCRIPTION_SUCCESS, out_id = subId, out_payload = JUndefined\<rparr>]"

text \<open>\<^verbatim>\<open>sendInitResult\<close> sends the result with a callback, which the socket calls once the
  message is written out (the event \<open>Flushed\<close> below).\<close>

definition sendInitResult :: "out_message \<Rightarrow> conn \<Rightarrow> conn" where
  "sendInitResult result s = (emit [Send result] s)\<lparr>flushing := flushing s @ [result]\<rparr>"

definition flushed :: "conn \<Rightarrow> conn" where
  "flushed s =
     (case flushing s of
        [] \<Rightarrow> s
      | result # rest \<Rightarrow>
          if out_type result = INIT_FAIL
          then (emit [SetTimeout 10] s)\<lparr>flushing := rest, timers := Suc (timers s)\<rparr>
          else s\<lparr>flushing := rest\<rparr>)"

definition timer_fires :: "conn \<Rightarrow> conn" where
  "timer_fires s =
     (if timers s = 0 then s
      else (emit [Close 1011, Terminate] s)\<lparr>timers := timers s - 1\<rparr>)"

text \<open>The payload \<^verbatim>\<open>{errors: [{message: text}]}\<close>.\<close>

definition errors_of :: "jsval \<Rightarrow> jsval" where
  "errors_of text = JObj [(''errors'', JArr [JObj [(''message'', text)]])]"

section \<open>Unsubscribing and closing\<close>

definition unsubscribe :: "ServerOptions \<Rightarrow> int \<Rightarrow> conn \<Rightarrow> conn" where
  "unsubscribe cfg handleId =
     emit (EngineUnsubscribe handleId # (if onUnsubscribe cfg then [Call_onUnsubscribe] else []))"

definition delete_sub :: "string \<Rightarrow> conn \<Rightarrow> conn" where
  "delete_sub k s = s\<lparr>connectionSubscriptions := AList.delete k (connectionSubscriptions s)\<rparr>"

text \<open>
  The body of the \<^verbatim>\<open>forEach\<close> of \<^verbatim>\<open>onClose\<close>, over the keys that \<^verbatim>\<open>Object.keys\<close> listed.
  The keys of an object are distinct and nothing else removes an entry during the loop, so
  the lookup finds each key; the other branch is not reached from a registry with distinct
  keys.
\<close>

fun close_each :: "ServerOptions \<Rightarrow> string list \<Rightarrow> conn \<Rightarrow> conn" where
  "close_each cfg [] s = s"
| "close_each cfg (subId # rest) s =
     close_each cfg rest
       (case map_of (connectionSubscriptions s) subId of
          Some h \<Rightarrow> delete_sub subId (unsubscribe cfg h s)
        | None \<Rightarrow> s)"

definition onClose :: "ServerOptions \<Rightarrow> conn \<Rightarrow> conn" where
  "onClose cfg s = close_each cfg (map fst (connectionSubscriptions s)) s"

text \<open>The handler of the socket's \<^verbatim>\<open>close\<close> event.\<close>

definition closed :: "ServerOptions \<Rightarrow> conn \<Rightarrow> conn" where
  "closed cfg s =
     (let s' = onClose cfg s in if onDisconnect cfg then emit [Call_onDisconnect] s' else s')"

section \<open>The handshake\<close>

text \<open>
  What a callback attached with \<^verbatim>\<open>initPromise.then(f)\<close> becomes once the promise has
  settled. The handlers of subscription messages attach a success callback only: on a
  rejected promise nothing of theirs runs.
\<close>

fun react :: "settle \<Rightarrow> reaction \<Rightarrow> task list" where
  "react out OnInit = [InitRespond out]"
| "react (Fulfil v) (OnStart m) = [StartSetup m v]"
| "react (Fulfil v) (OnEnd m) = [EndRun m]"
| "react (Reject e) (OnStart m) = []"
| "react (Reject e) (OnEnd m) = []"

definition then_initPromise :: "reaction \<Rightarrow> conn \<Rightarrow> conn" where
  "then_initPromise r s =
     (case initPromise s of
        Settled out \<Rightarrow> spawn (react out r) s
      | _ \<Rightarrow> s\<lparr>reactions := reactions s @ [r]\<rparr>)"

definition settle_initPromise :: "settle \<Rightarrow> conn \<Rightarrow> conn" where
  "settle_initPromise out s =
     (spawn (concat (map (react out) (reactions s))) s)
       \<lparr>initPromise := Settled out, reactions := []\<rparr>"

fun follow :: "hook_result \<Rightarrow> task" where
  "follow (Returns v) = AdoptConnect (Fulfil v)"
| "follow (Throws e) = AdoptConnect (Reject e)"
| "follow ReturnsPromise = AwaitConnect"

text \<open>\<^verbatim>\<open>onInitResolve(onConnectPromise)\<close>: the resolve function of a promise acts once.\<close>

definition onInitResolve :: "hook_result \<Rightarrow> conn \<Rightarrow> conn" where
  "onInitResolve q s =
     (if initPromise s = Pending then spawn [follow q] (s\<lparr>initPromise := Locked\<rparr>) else s)"

text \<open>
  The chain \<^verbatim>\<open>then(...).catch(...).then(...)\<close> of a handshake message: the message that
  \<^verbatim>\<open>sendInitResult\<close> gets, or \<open>None\<close> when the \<^verbatim>\<open>catch\<close> callback itself throws
  (\<^verbatim>\<open>error.message\<close> of a nullish rejection) and the last callback never runs.
\<close>

definition init_fail :: "jsval \<Rightarrow> out_message option" where
  "init_fail e =
     (if nullish e then None
      else Some \<lparr>out_type = INIT_FAIL, out_id = JUndefined,
                 out_payload = JObj [(''error'', prop_js e ''message'')]\<rparr>)"

fun init_result :: "settle \<Rightarrow> out_message option" where
  "init_result (Fulfil v) =
     (if v = JBool False then init_fail (Error_js ''Prohibited connection!'')
      else Some \<lparr>out_type = INIT_SUCCESS, out_id = JUndefined, out_payload = JUndefined\<rparr>)"
| "init_result (Reject e) = init_fail e"

definition init_respond :: "settle \<Rightarrow> conn \<Rightarrow> conn" where
  "init_respond out s = (case init_result out of None \<Rightarrow> s | Some r \<Rightarrow> sendInitResult r s)"

section \<open>Subscriptions\<close>

definition baseParams :: "SubscribeMessage \<Rightarrow> jsval \<Rightarrow> jsval" where
  "baseParams m initResult =
     JObj [(''query'', query m),
           (''variables'', variables m),
           (''operationName'', operationName m),
           (''context'', object_assign_empty (if isObject initResult then initResult else JObj [])),
           (''formatResponse'', JUndefined),
           (''formatError'', JUndefined),
           (''callback'', JUndefined)]"

text \<open>\<^verbatim>\<open>if (connectionSubscriptions[subId]) { unsubscribe; delete }\<close>: the test is the
  truthiness of the stored handle, a number.\<close>

definition replace_existing :: "ServerOptions \<Rightarrow> string \<Rightarrow> conn \<Rightarrow> conn" where
  "replace_existing cfg k s =
     (case map_of (connectionSubscriptions s) k of
        Some h \<Rightarrow> if h \<noteq> 0 then delete_sub k (unsubscribe cfg h s) else s
      | None \<Rightarrow> s)"

text \<open>
  The callback attached to \<^verbatim>\<open>initPromise\<close> by a subscription-start message. A hook that
  throws ends it there, before the registry is looked at.
\<close>

definition start_setup :: "ServerOptions \<Rightarrow> SubscribeMessage \<Rightarrow> jsval \<Rightarrow> conn \<Rightarrow> conn" where
  "start_setup cfg m initResult s =
     (let bp = baseParams m initResult; k = subId_key (msg_id m) in
      case onSubscribe cfg of
        None \<Rightarrow> spawn [StartSubscribe m (Fulfil bp)] (replace_existing cfg k s)
      | Some hook \<Rightarrow>
          (case hook m bp of
             Throws e \<Rightarrow> emit [Call_onSubscribe m bp] s
           | Returns params \<Rightarrow>
               spawn [StartSubscribe m (Fulfil params)]
                 (replace_existing cfg k (emit [Call_onSubscribe m bp] s))
           | ReturnsPromise \<Rightarrow>
               spawn [AwaitParams m]
                 (replace_existing cfg k (emit [Call_onSubscribe m bp] s))))"

definition invalid_params :: string where
  "invalid_params = ''Invalid params returned from onSubscribe! return values must be an object!''"

text \<open>The message of the TypeError of \<^verbatim>\<open>params.callback = ...\<close> on \<^verbatim>\<open>null\<close> (V8's wording).\<close>

definition null_callback :: string where
  "null_callback = ''Cannot set property 'callback' of null''"

text \<open>
  The callback of \<^verbatim>\<open>promisedParams.then\<close>. On rejected params the rejection passes on to
  the \<^verbatim>\<open>catch\<close>. The promise that \<^verbatim>\<open>subscribe\<close> returns is settled by the engine.
\<close>

fun start_subscribe :: "SubscribeMessage \<Rightarrow> settle \<Rightarrow> conn \<Rightarrow> conn" where
  "start_subscribe m (Reject e) s = spawn [StartFail m e] s"
| "start_subscribe m (Fulfil params) s =
     (if typeof_js params \<noteq> ''object''
      then spawn [StartFail m (Error_js invalid_params)]
             (sendSubscriptionFail (subId_js (msg_id m)) (errors_of (JStr invalid_params)) s)
      else if params = JNull then spawn [StartFail m (Error_js null_callback)] s
      else spawn [AwaitHandle m] (emit [EngineSubscribe params (msg_id m)] s))"

definition start_install :: "SubscribeMessage \<Rightarrow> int \<Rightarrow> conn \<Rightarrow> conn" where
  "start_install m graphqlSubId s =
     sendSubscriptionSuccess (subId_js (msg_id m))
       (s\<lparr>connectionSubscriptions :=
            AList.update (subId_key (msg_id m)) graphqlSubId (connectionSubscriptions s)\<rparr>)"

text \<open>The \<^verbatim>\<open>catch\<close> callback; \<^verbatim>\<open>e.errors\<close> of a nullish \<open>e\<close> throws and nothing is sent.\<close>

definition start_fail :: "SubscribeMessage \<Rightarrow> jsval \<Rightarrow> conn \<Rightarrow> conn" where
  "start_fail m e s =
     (if nullish e then s
      else if truthy (prop_js e ''errors'')
      then sendSubscriptionFail (subId_js (msg_id m)) (JObj [(''errors'', prop_js e ''errors'')]) s
      else sendSubscriptionFail (subId_js (msg_id m)) (errors_of (prop_js e ''message'')) s)"

text \<open>\<^verbatim>\<open>if (typeof connectionSubscriptions[subId] !== 'undefined') { unsubscribe; delete }\<close>\<close>

definition end_run :: "ServerOptions \<Rightarrow> SubscribeMessage \<Rightarrow> conn \<Rightarrow> conn" where
  "end_run cfg m s =
     (let k = subId_key (msg_id m) in
      case map_of (connectionSubscriptions s) k of
        Some h \<Rightarrow> delete_sub k (unsubscribe cfg h s)
      | None \<Rightarrow> s)"

text \<open>\<^verbatim>\<open>params.callback\<close>, the delivery callback of subscription id \<open>subId\<close>.\<close>

definition callback :: "string option \<Rightarrow> jsval \<Rightarrow> jsval \<Rightarrow> conn \<Rightarrow> conn" where
  "callback subId error result s =
     (if \<not> truthy error then sendSubscriptionData (subId_js subId) result s
      else if truthy (prop_js error ''errors'')
      then sendSubscriptionData (subId_js subId) (JObj [(''errors'', prop_js error ''errors'')]) s
      else sendSubscriptionData (subId_js subId) (errors_of (prop_js error ''message'')) s)"

section \<open>The message handler\<close>

text \<open>\<^verbatim>\<open>onConnectPromise\<close>: \<^verbatim>\<open>Promise.resolve(true)\<close> without a connect hook, else the promise
  that settles as the call of the hook does.\<close>

definition onConnectPromise :: "ServerOptions \<Rightarrow> SubscribeMessage \<Rightarrow> hook_result" where
  "onConnectPromise cfg parsedMessage =
     (case onConnect cfg of
        None \<Rightarrow> Returns (JBool True)
      | Some hook \<Rightarrow> hook (payload parsedMessage))"

definition onMessage :: "ServerOptions \<Rightarrow> frame \<Rightarrow> conn \<Rightarrow> conn" where
  "onMessage cfg fr s =
     (case fr of
        Malformed text \<Rightarrow> sendSubscriptionFail JNull (errors_of (JStr text)) s
      | Parsed parsedMessage \<Rightarrow>
          (case msg_type parsedMessage of
             INIT \<Rightarrow>
               then_initPromise OnInit
                 (onInitResolve (onConnectPromise cfg parsedMessage)
                    (emit (case onConnect cfg of
                             None \<Rightarrow> []
                           | Some hook \<Rightarrow> [Call_onConnect (payload parsedMessage)]) s))
           | SUBSCRIPTION_START \<Rightarrow> then_initPromise (OnStart parsedMessage) s
           | SUBSCRIPTION_END \<Rightarrow> then_initPromise (OnEnd parsedMessage) s
           | _ \<Rightarrow>
               sendSubscriptionFail (subId_js (msg_id parsedMessage))
                 (errors_of (JStr ''Invalid message type!'')) s))"

section \<open>The event loop\<close>

text \<open>
  The environment of a connection: the socket delivers a frame, calls back after a send, or
  closes; the runtime runs a ready continuation or fires a timer; a promise of a hook or of
  the engine settles; the engine delivers an event to a callback it was given. Continuations
  are identified by their position among the tasks. The runtime's order of running ready
  continuations is left to the sequence of events, so every order is covered.
\<close>

datatype event =
    Message frame
  | Run nat
  | HookSettles nat settle
  | EngineSettles nat subscribe_result
  | Deliver "string option" jsval jsval
  | Flushed
  | TimerFires
  | ConnectionClosed

fun ready :: "task \<Rightarrow> bool" where
  "ready AwaitConnect = False"
| "ready (AwaitParams m) = False"
| "ready (AwaitHandle m) = False"
| "ready t = True"

fun exec_task :: "ServerOptions \<Rightarrow> task \<Rightarrow> conn \<Rightarrow> conn" where
  "exec_task cfg (AdoptConnect out) s = settle_initPromise out s"
| "exec_task cfg (InitRespond out) s = init_respond out s"
| "exec_task cfg (StartSetup m v) s = start_setup cfg m v s"
| "exec_task cfg (EndRun m) s = end_run cfg m s"
| "exec_task cfg (StartSubscribe m out) s = start_subscribe m out s"
| "exec_task cfg (StartInstall m h) s = start_install m h s"
| "exec_task cfg (StartFail m e) s = start_fail m e s"
| "exec_task cfg t s = s"

fun hook_settles :: "settle \<Rightarrow> task \<Rightarrow> task" where
  "hook_settles out AwaitConnect = AdoptConnect out"
| "hook_settles out (AwaitParams m) = StartSubscribe m out"
| "hook_settles out t = t"

fun engine_settles :: "subscribe_result \<Rightarrow> task \<Rightarrow> task" where
  "engine_settles (Subscribed h) (AwaitHandle m) = StartInstall m h"
| "engine_settles (SubscribeFailed e) (AwaitHandle m) = StartFail m e"
| "engine_settles r t = t"

text \<open>The engine can call only a callback that a \<^verbatim>\<open>subscribe\<close> call has handed to it.\<close>

fun hands_callback :: "string option \<Rightarrow> effect \<Rightarrow> bool" where
  "hands_callback i (EngineSubscribe p j) = (i = j)"
| "hands_callback i e = False"

fun step :: "ServerOptions \<Rightarrow> conn \<Rightarrow> event \<Rightarrow> conn" where
  "step cfg s (Message fr) = onMessage cfg fr s"
| "step cfg s (Run i) =
     (if i < length (tasks s) \<and> ready (tasks s ! i)
      then exec_task cfg (tasks s ! i) (s\<lparr>tasks := take i (tasks s) @ drop (Suc i) (tasks s)\<rparr>)
      else s)"
| "step cfg s (HookSettles i out) =
     (if i < length (tasks s) then s\<lparr>tasks := (tasks s)[i := hook_settles out (tasks s ! i)]\<rparr>
      else s)"
| "step cfg s (EngineSettles i r) =
     (if i < length (tasks s) then s\<lparr>tasks := (tasks s)[i := engine_settles r (tasks s ! i)]\<rparr>
      else s)"
| "step cfg s (Deliver i error result) =
     (if list_ex (hands_callback i) (trace s) then callback i error result s else s)"
| "step cfg s Flushed = flushed s"
| "step cfg s TimerFires = timer_fires s"
| "step cfg s ConnectionClosed = closed cfg s"

definition run :: "ServerOptions \<Rightarrow> conn \<Rightarrow> event list \<Rightarrow> conn" where
  "run cfg s evs = foldl (step cfg) s evs"

section \<open>Observations\<close>

text \<open>The calls made between a state and a later one.\<close>

definition since :: "conn \<Rightarrow> conn \<Rightarrow> effect list" where
  "since s s' = drop (length (trace s)) (trace s')"

text \<open>The handles of the \<^verbatim>\<open>subscriptionManager.unsubscribe\<close> calls among some calls.\<close>

fun unsubscribed :: "effect list \<Rightarrow> int list" where
  "unsubscribed [] = []"
| "unsubscribed (EngineUnsubscribe h # es) = h # unsubscribed es"
| "unsubscribed (e # es) = unsubscribed es"

fun is_fail :: "effect \<Rightarrow> bool" where
  "is_fail (Send m) = (out_type m = SUBSCRIPTION_FAIL)"
| "is_fail e = False"

fun subscription_message :: "event \<Rightarrow> bool" where
  "subscription_message (Message (Parsed m)) =
     (msg_type m = SUBSCRIPTION_START \<or> msg_type m = SUBSCRIPTION_END)"
| "subscription_message ev = False"

fun fulfilled :: "promise_state \<Rightarrow> bool" where
  "fulfilled (Settled (Fulfil v)) = True"
| "fulfilled p = False"

text \<open>The calls that a subscription causes: the before-subscribe and after-unsubscribe
  hooks, the engine's \<^verbatim>\<open>subscribe\<close> and \<^verbatim>\<open>unsubscribe\<close>, and the subscription-success and
  subscription-data responses. (A subscription-error is also the answer to a malformed
  message and to a message of an unrecognized type.)\<close>

fun subscription_effect :: "effect \<Rightarrow> bool" where
  "subscription_effect (Send m) =
     (out_type m = SUBSCRIPTION_SUCCESS \<or> out_type m = SUBSCRIPTION_DATA)"
| "subscription_effect (EngineSubscribe p i) = True"
| "subscription_effect (EngineUnsubscribe h) = True"
| "subscription_effect (Call_onSubscribe m p) = True"
| "subscription_effect Call_onUnsubscribe = True"
| "subscription_effect e = False"

text \<open>A connection without the callbacks that subscription messages have attached to the
  handshake promise.\<close>

definition handshake_only :: "conn \<Rightarrow> conn" where
  "handshake_only s = s\<lparr>reactions := filter (\<lambda>r. r = OnInit) (reactions s)\<rparr>"

fun init_message :: "event \<Rightarrow> bool" where
  "init_message (Message (Parsed m)) = (msg_type m = INIT)"
| "init_message ev = False"

fun init_response :: "effect \<Rightarrow> bool" where
  "init_response (Send m) = (out_type m = INIT_SUCCESS \<or> out_type m = INIT_FAIL)"
| "init_response e = False"

fun connect_call :: "effect \<Rightarrow> bool" where
  "connect_call (Call_onConnect p) = True"
| "connect_call e = False"

fun respond_task :: "task \<Rightarrow> bool" where
  "respond_task (InitRespond out) = True"
| "respond_task t = False"

text \<open>The handshake messages whose response chain has not run yet: it waits for the promise
  or is ready to run.\<close>

definition unanswered :: "conn \<Rightarrow> nat" where
  "unanswered s =
     length (filter (\<lambda>r. r = OnInit) (reactions s)) + length (filter respond_task (tasks s))"

text \<open>The response that the state of the handshake promise determines.\<close>

fun answer :: "promise_state \<Rightarrow> effect list" where
  "answer (Settled out) = (case init_result out of None \<Rightarrow> [] | Some r \<Rightarrow> [Send r])"
| "answer p = []"

text \<open>The handshake promise has been resolved with the promise \<open>q\<close> of a connect hook call:
  it is locked, or settled as that call settled.\<close>

fun decided :: "hook_result \<Rightarrow> promise_state \<Rightarrow> bool" where
  "decided q Pending = False"
| "decided q Locked = True"
| "decided (Returns v) (Settled out) = (out = Fulfil v)"
| "decided (Throws e) (Settled out) = (out = Reject e)"
| "decided ReturnsPromise (Settled out) = True"

section \<open>Invariants\<close>

text \<open>
  The states that a connection reaches from \<open>accepted\<close>. While the handshake promise is
  pending nothing is scheduled; while it is locked the one task is the adoption of the
  connect hook's promise; once it is settled no such task is left, no callback waits on it
  and every response chain carries its outcome. Until it is fulfilled the registry is empty
  and no call of a subscription has been made.
\<close>

fun connect_task :: "task \<Rightarrow> bool" where
  "connect_task (AdoptConnect out) = True"
| "connect_task AwaitConnect = True"
| "connect_task t = False"

fun answers :: "settle \<Rightarrow> task \<Rightarrow> bool" where
  "answers out (InitRespond out') = (out' = out)"
| "answers out t = True"

definition untouched :: "conn \<Rightarrow> bool" where
  "untouched s \<longleftrightarrow>
     connectionSubscriptions s = [] \<and> list_all (\<lambda>e. \<not> subscription_effect e) (trace s)"

definition wf :: "conn \<Rightarrow> bool" where
  "wf s \<longleftrightarrow>
     (case initPromise s of
        Pending \<Rightarrow> tasks s = [] \<and> untouched s
      | Locked \<Rightarrow> length (tasks s) = 1 \<and> list_all connect_task (tasks s) \<and> untouched s
      | Settled out \<Rightarrow>
          reactions s = [] \<and> list_all (\<lambda>t. \<not> connect_task t \<and> answers out t) (tasks s)
          \<and> (case out of Reject e \<Rightarrow> list_all respond_task (tasks s) \<and> untouched s
               | Fulfil v \<Rightarrow> True))"

text \<open>The continuations of subscriptions, and the calls that are none of the handshake.\<close>

fun late_task :: "task \<Rightarrow> bool" where
  "late_task (AdoptConnect out) = False"
| "late_task AwaitConnect = False"
| "late_task (InitRespond out) = False"
| "late_task t = True"

fun late_effect :: "effect \<Rightarrow> bool" where
  "late_effect (Send m) = (out_type m \<noteq> INIT_SUCCESS \<and> out_type m \<noteq> INIT_FAIL)"
| "late_effect (Call_onConnect p) = False"
| "late_effect e = True"

text \<open>What running a continuation of a subscription may change: it schedules continuations
  of subscriptions, makes calls that are none of the handshake, and updates the registry.\<close>

definition extends :: "conn \<Rightarrow> conn \<Rightarrow> bool" where
  "extends s s' \<longleftrightarrow>
     initPromise s' = initPromise s \<and> reactions s' = reactions s
     \<and> flushing s' = flushing s \<and> timers s' = timers s
     \<and> take (length (tasks s)) (tasks s') = tasks s
     \<and> list_all late_task (drop (length (tasks s)) (tasks s'))
     \<and> take (length (trace s)) (trace s') = trace s
     \<and> list_all late_effect (drop (length (trace s)) (trace s'))"

text \<open>The handshake part of a trace, and what an event adds to it: the call of the connect
  hook for a handshake message, the response when a response chain runs.\<close>

definition early :: "effect list \<Rightarrow> effect list" where
  "early es = filter (\<lambda>e. \<not> late_effect e) es"

fun greeted :: "ServerOptions \<Rightarrow> event \<Rightarrow> effect list" where
  "greeted cfg (Message (Parsed m)) =
     (if msg_type m = INIT \<and> onConnect cfg \<noteq> None then [Call_onConnect (payload m)] else [])"
| "greeted cfg ev = []"

fun responded :: "conn \<Rightarrow> event \<Rightarrow> effect list" where
  "responded s (Run i) =
     (if i < length (tasks s)
      then (case tasks s ! i of InitRespond out \<Rightarrow> answer (Settled out) | _ \<Rightarrow> [])
      else [])"
| "responded s ev = []"

fun responding :: "conn \<Rightarrow> event \<Rightarrow> bool" where
  "responding s (Run i) = (i < length (tasks s) \<and> respond_task (tasks s ! i))"
| "responding s ev = False"

text \<open>The task that settles the handshake promise agrees with the connect hook call \<open>q\<close>.\<close>

fun follows :: "hook_result \<Rightarrow> task \<Rightarrow> bool" where
  "follows q (AdoptConnect out) = decided q (Settled out)"
| "follows q AwaitConnect = (q = ReturnsPromise)"
| "follows q t = True"

definition led :: "hook_result \<Rightarrow> conn \<Rightarrow> bool" where
  "led q s \<longleftrightarrow>
     decided q (initPromise s) \<and> (initPromise s = Locked \<longrightarrow> list_all (follows q) (tasks s))"

section \<open>Example servers and messages\<close>

definition plain_server :: ServerOptions where
  "plain_server =
     \<lparr>onSubscribe = None, onUnsubscribe = False, onConnect = None, onDisconnect = False\<rparr>"

definition greeting_server :: ServerOptions where
  "greeting_server = plain_server\<lparr>onConnect := Some (\<lambda>p. Returns (JBool True))\<rparr>"

definition refusing_server :: ServerOptions where
  "refusing_server = plain_server\<lparr>onConnect := Some (\<lambda>p. Returns (JBool False))\<rparr>"

definition throwing_server :: ServerOptions where
  "throwing_server = plain_server\<lparr>onConnect := Some (\<lambda>p. Throws (Error_js ''denied''))\<rparr>"

definition null_params_server :: ServerOptions where
  "null_params_server = plain_server\<lparr>onSubscribe := Some (\<lambda>m bp. Returns JNull)\<rparr>"

definition number_params_server :: ServerOptions where
  "number_params_server = plain_server\<lparr>onSubscribe := Some (\<lambda>m bp. Returns (JNum 5))\<rparr>"

definition message :: "message_type \<Rightarrow> string option \<Rightarrow> SubscribeMessage" where
  "message ty i = \<lparr>payload = JUndefined, query = JUndefined, variables = JUndefined,
     operationName = JUndefined, msg_id = i, msg_type = ty\<rparr>"

text \<open>A connection after a successful handshake, with two subscriptions; the engine's
  handle of the first is 0.\<close>

definition subscribed :: conn where
  "subscribed = accepted\<lparr>initPromise := Settled (Fulfil (JBool True)),
     connectionSubscriptions := [(''a'', 0), (''b'', 7)]\<rparr>"

text \<open>That connection with the continuation of a subscription-start for the id \<open>a\<close> and
  the continuation of a subscription-end for it ready to run.\<close>

definition restarting :: conn where
  "restarting = subscribed\<lparr>tasks :=
     [StartSetup (message SUBSCRIPTION_START (Some ''a'')) (JBool True),
      EndRun (message SUBSCRIPTION_END (Some ''a''))]\<rparr>"

text \<open>That connection when the before-subscribe hook has resolved to the number 5.\<close>

definition params_ready :: conn where
  "params_ready = subscribed\<lparr>tasks :=
     [StartSubscribe (message SUBSCRIPTION_START (Some ''c'')) (Fulfil (JNum 5))]\<rparr>"

text \<open>That connection when the engine holds the callback of the subscription \<open>b\<close>.\<close>

definition delivering :: conn where
  "delivering = subscribed\<lparr>trace := [EngineSubscribe (JObj []) (Some ''b'')]\<rparr>"

definition graphql_error :: jsval where
  "graphql_error = JObj [(''errors'', JArr [JObj [(''message'', JStr ''bad field'')]])]"

text \<open>A connection whose connect hook has thrown.\<close>

definition rejected :: conn where
  "rejected = run throwing_server accepted [Message (Parsed (message INIT None)), Run 0]"

text \<open>Two handshake messages, the second after the first has been answered.\<close>

definition two_inits :: "event list" where
  "two_inits = [Message (Parsed (message INIT None)), Run 0, Run 0,
     Message (Parsed (message INIT None)), Run 0]"

text \<open>Subscription messages that arrive before and right after the handshake message, when
  the handshake promise has not settled.\<close>

definition early_messages :: "event list" where
  "early_messages = [Message (Parsed (message SUBSCRIPTION_START (Some ''1''))),
     Message (Parsed (message SUBSCRIPTION_END (Some ''1''))),
     Message (Parsed (message INIT None)),
     Message (Parsed (message SUBSCRIPTION_START (Some ''2'')))]"

section \<open>Basic facts\<close>

lemma unsubscribed_append: "unsubscribed (xs @ ys) = unsubscribed xs @ unsubscribed ys"
  by (induction xs rule: unsubscribed.induct) auto

lemma run_Nil: "run cfg s [] = s"
  by (simp add: run_def)

lemma run_Cons: "run cfg s (ev # evs) = run cfg (step cfg s ev) evs"
  by (simp add: run_def)

lemma run_snoc: "run cfg s (evs @ [ev]) = step cfg (run cfg s evs) ev"
  by (simp add: run_def)

lemma run_append: "run cfg s (evs @ evs') = run cfg (run cfg s evs) evs'"
  by (simp add: run_def)

lemma run_last:
  "tasks s = xs @ [t] \<Longrightarrow> ready t \<Longrightarrow>
   step cfg s (Run (length xs)) = exec_task cfg t (s\<lparr>tasks := xs\<rparr>)"
  by simp

text \<open>Closing from a registry with distinct keys: every entry is unsubscribed and removed.\<close>

lemma close_each_result:
  "distinct (map fst kvs) \<Longrightarrow> connectionSubscriptions s = kvs \<Longrightarrow>
   close_each cfg (map fst kvs) s =
     s\<lparr>connectionSubscriptions := [],
       trace := trace s @ concat (map (\<lambda>kv. EngineUnsubscribe (snd kv) #
                  (if onUnsubscribe cfg then [Call_onUnsubscribe] else [])) kvs)\<rparr>"
proof (induction kvs arbitrary: s)
  case Nil
  then show ?case by simp
next
  case (Cons kv kvs)
  obtain k h where kv: "kv = (k, h)" by (cases kv)
  let ?s = "delete_sub k (unsubscribe cfg h s)"
  from Cons.prems kv have notin: "k \<notin> fst ` set kvs" and d: "distinct (map fst kvs)" by auto
  have "AList.delete k kvs = kvs" using notin by (simp add: delete_id)
  with Cons.prems kv have subs: "connectionSubscriptions ?s = kvs"
    by (simp add: delete_sub_def unsubscribe_def emit_def)
  have "close_each cfg (map fst (kv # kvs)) s = close_each cfg (map fst kvs) ?s"
    using Cons.prems kv by simp
  also have "\<dots> = ?s\<lparr>connectionSubscriptions := [],
       trace := trace ?s @ concat (map (\<lambda>kv. EngineUnsubscribe (snd kv) #
                  (if onUnsubscribe cfg then [Call_onUnsubscribe] else [])) kvs)\<rparr>"
    using Cons.IH [OF d subs] .
  finally show ?case using kv
    by (simp add: delete_sub_def unsubscribe_def emit_def)
qed

lemma rejected_message_ignored:
  "initPromise s = Settled (Reject e) \<Longrightarrow> subscription_message ev \<Longrightarrow> step cfg s ev = s"
  by (cases ev rule: subscription_message.cases)
     (auto simp add: onMessage_def then_initPromise_def spawn_def)

lemma settle_reject_tasks:
  "concat (map (react (Reject e)) rs) = map (\<lambda>r. InitRespond (Reject e)) (filter (\<lambda>r. r = OnInit) rs)"
proof (induction rs)
  case Nil
  then show ?case by simp
next
  case (Cons r rs)
  then show ?case by (cases r) simp_all
qed

lemma rejected_eval:
  "rejected = accepted\<lparr>initPromise := Settled (Reject (Error_js ''denied'')),
      tasks := [InitRespond (Reject (Error_js ''denied''))],
      trace := [Call_onConnect JUndefined]\<rparr>"
  by (simp add: rejected_def run_def throwing_server_def plain_server_def message_def
      accepted_def onMessage_def onConnectPromise_def onInitResolve_def then_initPromise_def spawn_def emit_def
      settle_initPromise_def)

section \<open>The invariant holds\<close>

lemma hands_callback_effect: "hands_callback i e \<Longrightarrow> subscription_effect e"
  by (cases e) simp_all

lemma untouched_hands: "untouched s \<Longrightarrow> \<not> list_ex (hands_callback i) (trace s)"
  by (auto simp add: untouched_def list_all_iff list_ex_iff dest: hands_callback_effect)

lemma wf_accepted: "wf accepted"
  by (simp add: wf_def accepted_def untouched_def)

lemma connect_task_follow [simp]: "connect_task (follow q)"
  by (cases q) simp_all

lemma react_tasks:
  "list_all (\<lambda>t. \<not> connect_task t \<and> answers out t) (concat (map (react out) rs))"
proof (induction rs)
  case Nil
  then show ?case by simp
next
  case (Cons r rs)
  then show ?case by (cases r; cases out) simp_all
qed

lemma react_reject_tasks:
  "list_all respond_task (concat (map (react (Reject e)) rs))"
  by (simp add: settle_reject_tasks list_all_iff)

lemma wf_message: "wf s \<Longrightarrow> wf (onMessage cfg fr s)"
  apply (cases fr)
   apply (auto simp add: wf_def onMessage_def untouched_def sendSubscriptionFail_def emit_def
      split: promise_state.splits settle.splits)[1]
  subgoal for m
    apply (cases "msg_type m")
    apply (auto simp add: wf_def onMessage_def untouched_def sendSubscriptionFail_def emit_def
      then_initPromise_def onInitResolve_def spawn_def
      split: promise_state.splits settle.splits option.splits)
    done
  done

lemma late_ok: "late_task t \<Longrightarrow> \<not> connect_task t \<and> answers out t"
  by (cases t) simp_all

lemma wf_settled_iff:
  "initPromise s = Settled (Fulfil v) \<Longrightarrow>
   wf s \<longleftrightarrow> reactions s = [] \<and> list_all (\<lambda>t. \<not> connect_task t \<and> answers (Fulfil v) t) (tasks s)"
  by (simp add: wf_def)

lemma extends_start_subscribe: "extends s (start_subscribe m out s)"
  by (cases out)
     (simp_all add: extends_def spawn_def emit_def sendSubscriptionFail_def)

lemma extends_exec: "late_task t \<Longrightarrow> extends s (exec_task cfg t s)"
proof (cases t)
  case (StartSetup m v)
  then show ?thesis
    by (simp add: extends_def start_setup_def Let_def replace_existing_def spawn_def emit_def
        unsubscribe_def delete_sub_def split: option.splits hook_result.splits)
next
  case (StartSubscribe m out)
  then show ?thesis by (simp add: extends_start_subscribe)
qed (simp_all add: extends_def Let_def end_run_def start_install_def start_fail_def spawn_def emit_def
      unsubscribe_def delete_sub_def sendSubscriptionFail_def sendSubscriptionSuccess_def
      split: option.splits)

lemma extends_tasks:
  "extends s s' \<Longrightarrow> \<exists>ts. tasks s' = tasks s @ ts \<and> list_all late_task ts"
  unfolding extends_def by (metis append_take_drop_id)

lemma extends_trace:
  "extends s s' \<Longrightarrow> \<exists>es. trace s' = trace s @ es \<and> list_all late_effect es"
  unfolding extends_def by (metis append_take_drop_id)

lemma list_all_remove: "list_all P xs \<Longrightarrow> list_all P (take i xs @ drop (Suc i) xs)"
  by (auto simp add: list_all_iff dest: in_set_takeD in_set_dropD)

lemma list_all_nth: "list_all P xs \<Longrightarrow> i < length xs \<Longrightarrow> P (xs ! i)"
  by (simp add: list_all_length)

lemma list_all_update: "list_all P xs \<Longrightarrow> P y \<Longrightarrow> list_all P (xs[i := y])"
  by (auto simp add: list_all_iff dest: set_update_subset_insert [THEN subsetD])

lemma late_imp: "list_all late_task ts \<Longrightarrow> list_all (\<lambda>t. \<not> connect_task t \<and> answers out t) ts"
  by (auto simp add: list_all_iff late_ok)

lemma wf_extends:
  assumes "initPromise s = Settled (Fulfil v)" and "wf s" and "extends s s'"
  shows "wf s'"
proof -
  from assms(3) obtain ts where ts: "tasks s' = tasks s @ ts" "list_all late_task ts"
    using extends_tasks by blast
  from assms(3) have "initPromise s' = initPromise s" "reactions s' = reactions s"
    by (simp_all add: extends_def)
  with assms(1,2) ts late_imp [OF ts(2), of "Fulfil v"] show ?thesis
    by (simp add: wf_def)
qed

lemma close_each_keeps:
  "initPromise (close_each cfg ks s) = initPromise s \<and> tasks (close_each cfg ks s) = tasks s
   \<and> reactions (close_each cfg ks s) = reactions s \<and> flushing (close_each cfg ks s) = flushing s
   \<and> timers (close_each cfg ks s) = timers s"
  by (induction ks arbitrary: s)
     (simp_all add: delete_sub_def unsubscribe_def emit_def split: option.splits)

lemma closed_keeps:
  "initPromise (closed cfg s) = initPromise s \<and> tasks (closed cfg s) = tasks s
   \<and> reactions (closed cfg s) = reactions s \<and> flushing (closed cfg s) = flushing s
   \<and> timers (closed cfg s) = timers s"
  by (simp add: closed_def onClose_def Let_def close_each_keeps emit_def)

lemma closed_untouched:
  "connectionSubscriptions s = [] \<Longrightarrow>
   closed cfg s = s\<lparr>trace := trace s @ (if onDisconnect cfg then [Call_onDisconnect] else [])\<rparr>"
  by (simp add: closed_def onClose_def emit_def)

lemma wf_closed: "wf s \<Longrightarrow> wf (closed cfg s)"
proof (cases "fulfilled (initPromise s)")
  case True
  assume "wf s"
  with True show ?thesis
    by (cases "initPromise s" rule: fulfilled.cases) (simp_all add: wf_def closed_keeps)
next
  case False
  assume w: "wf s"
  with False have "connectionSubscriptions s = []"
    by (cases "initPromise s" rule: fulfilled.cases) (simp_all add: wf_def untouched_def)
  then have c: "closed cfg s = s\<lparr>trace := trace s @ (if onDisconnect cfg then [Call_onDisconnect] else [])\<rparr>"
    by (rule closed_untouched)
  from w show ?thesis unfolding c
    by (auto simp add: wf_def untouched_def split: promise_state.splits settle.splits)
qed

lemma wf_flushed: "wf s \<Longrightarrow> wf (flushed s)"
  by (auto simp add: wf_def untouched_def flushed_def emit_def
      split: promise_state.splits settle.splits list.splits)

lemma wf_timer: "wf s \<Longrightarrow> wf (timer_fires s)"
  by (auto simp add: wf_def untouched_def timer_fires_def emit_def
      split: promise_state.splits settle.splits)

lemma wf_deliver: "wf s \<Longrightarrow> wf (step cfg s (Deliver i error result))"
proof (cases "list_ex (hands_callback i) (trace s)")
  case False
  assume "wf s"
  with False show ?thesis by simp
next
  case True
  assume w: "wf s"
  from True have "\<not> untouched s" using untouched_hands by blast
  with w obtain v where "initPromise s = Settled (Fulfil v)"
    by (auto simp add: wf_def split: promise_state.splits settle.splits)
  with w show ?thesis
    by (simp add: wf_def callback_def sendSubscriptionData_def emit_def)
qed

lemma hook_settles_keeps [simp]:
  "connect_task (hook_settles out t) = connect_task t"
  "respond_task (hook_settles out t) = respond_task t"
  "answers out' (hook_settles out t) = answers out' t"
  by (cases t; simp)+

lemma engine_settles_keeps [simp]:
  "connect_task (engine_settles r t) = connect_task t"
  "respond_task (engine_settles r t) = respond_task t"
  "answers out' (engine_settles r t) = answers out' t"
  by (cases t; cases r; simp)+

lemma wf_hook_settles: "wf s \<Longrightarrow> wf (step cfg s (HookSettles i out))"
  by (auto simp add: wf_def untouched_def list_all_length nth_list_update
      split: promise_state.splits settle.splits)

lemma wf_engine_settles: "wf s \<Longrightarrow> wf (step cfg s (EngineSettles i r))"
  by (auto simp add: wf_def untouched_def list_all_length nth_list_update
      split: promise_state.splits settle.splits)

lemma task_kinds: "connect_task t \<or> respond_task t \<or> late_task t"
  by (cases t) simp_all

lemma init_respond_keeps:
  "initPromise (init_respond out s) = initPromise s \<and> tasks (init_respond out s) = tasks s
   \<and> reactions (init_respond out s) = reactions s
   \<and> connectionSubscriptions (init_respond out s) = connectionSubscriptions s
   \<and> timers (init_respond out s) = timers s"
  by (simp add: init_respond_def sendInitResult_def emit_def split: option.splits)

lemma init_result_type:
  "init_result out = Some r \<Longrightarrow> out_type r = INIT_SUCCESS \<or> out_type r = INIT_FAIL"
  by (cases out) (auto simp add: init_fail_def split: if_splits)

lemma init_respond_hands:
  "list_all (\<lambda>e. \<not> subscription_effect e) (trace (init_respond out s)) =
   list_all (\<lambda>e. \<not> subscription_effect e) (trace s)"
  by (auto simp add: init_respond_def sendInitResult_def emit_def split: option.splits
      dest: init_result_type)

lemma wf_init_respond: "wf s \<Longrightarrow> wf (init_respond out s)"
  by (simp add: wf_def untouched_def init_respond_keeps init_respond_hands
      split: promise_state.splits settle.splits)

lemma wf_drop_task:
  "wf s \<Longrightarrow> initPromise s = Settled out \<Longrightarrow>
   wf (s\<lparr>tasks := take i (tasks s) @ drop (Suc i) (tasks s)\<rparr>)"
  by (cases out) (simp_all add: wf_def untouched_def list_all_remove del: list_all_append)

lemma wf_run_task: "wf s \<Longrightarrow> wf (step cfg s (Run i))"
proof (cases "i < length (tasks s) \<and> ready (tasks s ! i)")
  case False
  assume "wf s"
  with False show ?thesis by auto
next
  case True
  assume w: "wf s"
  define t where "t = tasks s ! i"
  define s0 where "s0 = s\<lparr>tasks := take i (tasks s) @ drop (Suc i) (tasks s)\<rparr>"
  from True have st: "step cfg s (Run i) = exec_task cfg t s0"
    by (simp add: t_def s0_def)
  from True have i: "i < length (tasks s)" and r: "ready t" by (simp_all add: t_def)
  show ?thesis
  proof (cases "initPromise s")
    case Pending
    with w i show ?thesis by (simp add: wf_def)
  next
    case Locked
    with w have one: "length (tasks s) = 1" and c: "list_all connect_task (tasks s)"
      and u: "untouched s"
      by (simp_all add: wf_def)
    from c i have "connect_task t" unfolding t_def by (rule list_all_nth)
    with r obtain out where t: "t = AdoptConnect out" by (cases t) simp_all
    from one i have e: "tasks s0 = []" by (simp add: s0_def)
    from u have u0: "untouched s0" by (simp add: untouched_def s0_def)
    have "wf (settle_initPromise out s0)"
      using u0 e react_tasks [of out "reactions s0"] react_reject_tasks [of _ "reactions s0"]
      by (cases out)
         (simp_all add: wf_def settle_initPromise_def spawn_def untouched_def)
    then show ?thesis unfolding st t by simp
  next
    case (Settled out)
    from w Settled have all: "list_all (\<lambda>t. \<not> connect_task t \<and> answers out t) (tasks s)"
      by (simp add: wf_def)
    from all i have nt: "\<not> connect_task t \<and> answers out t"
      unfolding t_def by (rule list_all_nth)
    have w0: "wf s0" unfolding s0_def using w Settled by (rule wf_drop_task)
    have ip0: "initPromise s0 = Settled out" by (simp add: s0_def Settled)
    show ?thesis
    proof (cases "respond_task t")
      case True
      then obtain out' where "t = InitRespond out'" by (cases t) simp_all
      then show ?thesis unfolding st using w0 by (simp add: wf_init_respond)
    next
      case False
      with nt task_kinds [of t] have late: "late_task t" by blast
      show ?thesis
      proof (cases out)
        case (Fulfil v)
        from ip0 have "initPromise s0 = Settled (Fulfil v)" by (simp add: Fulfil)
        then show ?thesis unfolding st using w0 extends_exec [OF late]
          by (rule wf_extends)
      next
        case (Reject e)
        with w Settled have "list_all respond_task (tasks s)" by (simp add: wf_def)
        then have "respond_task t" unfolding t_def using i by (rule list_all_nth)
        with False show ?thesis by simp
      qed
    qed
  qed
qed

lemma wf_step: "wf s \<Longrightarrow> wf (step cfg s ev)"
proof (cases ev)
  case (Message fr)
  assume "wf s"
  then show ?thesis by (simp add: Message wf_message)
next
  case (Run i)
  assume "wf s"
  then show ?thesis unfolding Run by (rule wf_run_task)
next
  case (HookSettles i out)
  assume "wf s"
  then show ?thesis unfolding HookSettles by (rule wf_hook_settles)
next
  case (EngineSettles i r)
  assume "wf s"
  then show ?thesis unfolding EngineSettles by (rule wf_engine_settles)
next
  case (Deliver i error result)
  assume "wf s"
  then show ?thesis unfolding Deliver by (rule wf_deliver)
next
  case Flushed
  assume "wf s"
  then show ?thesis by (simp add: Flushed wf_flushed)
next
  case TimerFires
  assume "wf s"
  then show ?thesis by (simp add: TimerFires wf_timer)
next
  case ConnectionClosed
  assume "wf s"
  then show ?thesis by (simp add: ConnectionClosed wf_closed)
qed

lemma wf_run: "wf s \<Longrightarrow> wf (run cfg s evs)"
  by (induction evs arbitrary: s) (simp_all add: run_Nil run_Cons wf_step)

section \<open>The handshake promise settles once\<close>

lemma onMessage_settled:
  "initPromise s = Settled out \<Longrightarrow> initPromise (onMessage cfg fr s) = Settled out"
  by (cases fr)
     (auto simp add: onMessage_def sendSubscriptionFail_def emit_def then_initPromise_def
        onInitResolve_def spawn_def split: message_type.splits)

lemma settled_step:
  assumes "wf s" and "initPromise s = Settled out"
  shows "initPromise (step cfg s ev) = Settled out"
proof (cases ev)
  case (Message fr)
  with assms(2) show ?thesis by (simp add: onMessage_settled)
next
  case (Run i)
  show ?thesis
  proof (cases "i < length (tasks s) \<and> ready (tasks s ! i)")
    case False
    with assms(2) Run show ?thesis by auto
  next
    case True
    define t where "t = tasks s ! i"
    define s0 where "s0 = s\<lparr>tasks := take i (tasks s) @ drop (Suc i) (tasks s)\<rparr>"
    from True have st: "step cfg s (Run i) = exec_task cfg t s0"
      by (simp add: t_def s0_def)
    have ip0: "initPromise s0 = Settled out" by (simp add: s0_def assms(2))
    from assms have "list_all (\<lambda>t. \<not> connect_task t \<and> answers out t) (tasks s)"
      by (simp add: wf_def)
    with True have nt: "\<not> connect_task t" unfolding t_def by (simp add: list_all_length)
    show ?thesis
    proof (cases "respond_task t")
      case True
      then obtain out' where "t = InitRespond out'" by (cases t) simp_all
      then show ?thesis unfolding Run st using ip0 by (simp add: init_respond_keeps)
    next
      case False
      with nt task_kinds [of t] have "late_task t" by blast
      then have "extends s0 (exec_task cfg t s0)" by (rule extends_exec)
      then show ?thesis unfolding Run st using ip0 by (simp add: extends_def)
    qed
  qed
next
  case (HookSettles i out')
  with assms(2) show ?thesis by simp
next
  case (EngineSettles i r)
  with assms(2) show ?thesis by simp
next
  case (Deliver i error result)
  with assms(2) show ?thesis
    by (simp add: callback_def sendSubscriptionData_def emit_def)
next
  case Flushed
  with assms(2) show ?thesis
    by (simp add: flushed_def emit_def split: list.splits)
next
  case TimerFires
  with assms(2) show ?thesis by (simp add: timer_fires_def emit_def)
next
  case ConnectionClosed
  with assms(2) show ?thesis by (simp add: closed_keeps)
qed

lemma settled_run:
  "wf s \<Longrightarrow> initPromise s = Settled out \<Longrightarrow> initPromise (run cfg s evs) = Settled out"
  by (induction evs arbitrary: s) (simp_all add: run_Nil run_Cons wf_step settled_step)

lemma unfulfilled_back:
  "wf s \<Longrightarrow> \<not> fulfilled (initPromise (step cfg s ev)) \<Longrightarrow> \<not> fulfilled (initPromise s)"
  by (cases "initPromise s" rule: fulfilled.cases) (auto simp add: settled_step)

lemma unfulfilled_untouched: "wf s \<Longrightarrow> \<not> fulfilled (initPromise s) \<Longrightarrow> untouched s"
  by (cases "initPromise s" rule: fulfilled.cases) (auto simp add: wf_def)

lemma handshake_only_message:
  "\<not> fulfilled (initPromise s) \<Longrightarrow>
   handshake_only (onMessage cfg fr s) =
     (if subscription_message (Message fr) then handshake_only s
      else onMessage cfg fr (handshake_only s))"
  apply (cases fr)
   apply (simp add: handshake_only_def onMessage_def sendSubscriptionFail_def emit_def)
  subgoal for m
    apply (cases "initPromise s" rule: fulfilled.cases)
    apply (cases "msg_type m";
        simp add: handshake_only_def onMessage_def sendSubscriptionFail_def emit_def
          then_initPromise_def onInitResolve_def spawn_def)+
    done
  done

lemma handshake_only_settle:
  "handshake_only (settle_initPromise (Reject e) s) = settle_initPromise (Reject e) (handshake_only s)"
proof -
  have "filter (\<lambda>r. r = OnInit) (filter (\<lambda>r. r = OnInit) rs) = filter (\<lambda>r. r = OnInit) rs" for rs :: "reaction list"
    by simp
  then show ?thesis
    by (simp add: handshake_only_def settle_initPromise_def spawn_def settle_reject_tasks)
qed

lemma handshake_only_init_respond:
  "handshake_only (init_respond out s) = init_respond out (handshake_only s)"
  by (simp add: handshake_only_def init_respond_def sendInitResult_def emit_def split: option.splits)

lemma handshake_only_run_task:
  assumes "wf s" and "\<not> fulfilled (initPromise (step cfg s (Run i)))"
  shows "handshake_only (step cfg s (Run i)) = step cfg (handshake_only s) (Run i)"
proof (cases "i < length (tasks s) \<and> ready (tasks s ! i)")
  case False
  then show ?thesis by (auto simp add: handshake_only_def)
next
  case True
  define t where "t = tasks s ! i"
  define s0 where "s0 = s\<lparr>tasks := take i (tasks s) @ drop (Suc i) (tasks s)\<rparr>"
  from True have st: "step cfg s (Run i) = exec_task cfg t s0"
    by (simp add: t_def s0_def)
  have h0: "handshake_only s0 =
      (handshake_only s)\<lparr>tasks := take i (tasks s) @ drop (Suc i) (tasks s)\<rparr>"
    by (simp add: s0_def handshake_only_def)
  have ht: "tasks (handshake_only s) = tasks s" by (simp add: handshake_only_def)
  from True have st': "step cfg (handshake_only s) (Run i) = exec_task cfg t (handshake_only s0)"
    unfolding h0 by (simp add: t_def ht)
  from True have i: "i < length (tasks s)" and r: "ready t" by (simp_all add: t_def)
  from assms have nf: "\<not> fulfilled (initPromise s)" by (rule unfulfilled_back)
  show ?thesis
  proof (cases "initPromise s")
    case Pending
    with assms(1) i show ?thesis by (simp add: wf_def)
  next
    case Locked
    with assms(1) have c: "list_all connect_task (tasks s)" by (simp add: wf_def)
    from c i have "connect_task t" unfolding t_def by (rule list_all_nth)
    with r obtain out where t: "t = AdoptConnect out" by (cases t) simp_all
    from assms(2) have "\<not> fulfilled (initPromise (settle_initPromise out s0))"
      unfolding st t by simp
    then obtain e where "out = Reject e"
      by (cases out) (simp_all add: settle_initPromise_def)
    then show ?thesis unfolding st st' t by (simp add: handshake_only_settle)
  next
    case (Settled out')
    show ?thesis
    proof (cases out')
      case (Fulfil v)
      with nf Settled show ?thesis by simp
    next
      case (Reject e)
      with assms(1) Settled have "list_all respond_task (tasks s)" by (simp add: wf_def)
      then have "respond_task t" unfolding t_def using i by (rule list_all_nth)
      then obtain out where "t = InitRespond out" by (cases t) simp_all
      then show ?thesis unfolding st st' by (simp add: handshake_only_init_respond)
    qed
  qed
qed

lemma handshake_only_step:
  assumes "wf s" and "\<not> fulfilled (initPromise (step cfg s ev))"
  shows "handshake_only (step cfg s ev) =
     (if subscription_message ev then handshake_only s else step cfg (handshake_only s) ev)"
proof -
  from assms have nf: "\<not> fulfilled (initPromise s)" by (rule unfulfilled_back)
  with assms(1) have u: "untouched s" by (rule unfulfilled_untouched)
  show ?thesis
  proof (cases ev)
    case (Message fr)
    with nf show ?thesis by (simp add: handshake_only_message)
  next
    case (Run i)
    with assms show ?thesis by (simp del: step.simps add: handshake_only_run_task)
  next
    case (HookSettles i out)
    then show ?thesis by (simp add: handshake_only_def)
  next
    case (EngineSettles i r)
    then show ?thesis by (simp add: handshake_only_def)
  next
    case (Deliver i error result)
    with untouched_hands [OF u, of i] show ?thesis by (simp add: handshake_only_def)
  next
    case Flushed
    then show ?thesis by (simp add: handshake_only_def flushed_def emit_def split: list.splits)
  next
    case TimerFires
    then show ?thesis by (simp add: handshake_only_def timer_fires_def emit_def)
  next
    case ConnectionClosed
    with u show ?thesis by (simp add: handshake_only_def untouched_def closed_untouched)
  qed
qed

lemma handshake_only_run:
  "\<not> fulfilled (initPromise (run cfg accepted evs)) \<Longrightarrow>
   handshake_only (run cfg accepted evs) =
     run cfg accepted (filter (\<lambda>ev. \<not> subscription_message ev) evs)"
proof (induction evs rule: rev_induct)
  case Nil
  show ?case by (simp add: run_Nil handshake_only_def accepted_def)
next
  case (snoc ev evs)
  let ?s = "run cfg accepted evs"
  have w: "wf ?s" using wf_accepted by (rule wf_run)
  from snoc.prems have nf': "\<not> fulfilled (initPromise (step cfg ?s ev))"
    by (simp add: run_snoc)
  with w have "\<not> fulfilled (initPromise ?s)" by (rule unfulfilled_back)
  then have IH: "handshake_only ?s = run cfg accepted (filter (\<lambda>ev. \<not> subscription_message ev) evs)"
    by (rule snoc.IH)
  from w nf' have "handshake_only (step cfg ?s ev) =
     (if subscription_message ev then handshake_only ?s else step cfg (handshake_only ?s) ev)"
    by (rule handshake_only_step)
  then show ?case by (simp add: run_snoc IH)
qed

section \<open>The handshake part of the trace\<close>

lemma early_append [simp]: "early (xs @ ys) = early xs @ early ys"
  by (simp add: early_def)

lemma early_late: "list_all late_effect es \<Longrightarrow> early es = []"
  by (simp add: early_def list_all_iff)

lemma response_early: "filter init_response es = filter init_response (early es)"
  unfolding early_def filter_filter
  by (rule filter_cong [OF refl]) (auto elim: init_response.elims)

lemma call_early: "filter connect_call es = filter connect_call (early es)"
  unfolding early_def filter_filter
  by (rule filter_cong [OF refl]) (auto elim: connect_call.elims)

lemma early_extends: "extends s s' \<Longrightarrow> early (trace s') = early (trace s)"
proof -
  assume "extends s s'"
  then obtain es where "trace s' = trace s @ es" "list_all late_effect es"
    using extends_trace by blast
  then show ?thesis by (simp add: early_late)
qed

lemma early_close_each: "early (trace (close_each cfg ks s)) = early (trace s)"
  by (induction ks arbitrary: s)
     (simp_all add: delete_sub_def unsubscribe_def emit_def early_def split: option.splits)

lemma early_closed: "early (trace (closed cfg s)) = early (trace s)"
proof -
  have "early (trace (onClose cfg s)) = early (trace s)"
    by (simp add: onClose_def early_close_each)
  then show ?thesis
    by (simp add: closed_def Let_def emit_def) (simp add: early_def)
qed

lemma early_init_respond:
  "early (trace (init_respond out s)) = early (trace s) @ answer (Settled out)"
  by (auto simp add: init_respond_def sendInitResult_def emit_def early_def
      split: option.splits dest: init_result_type)

lemma early_message:
  "early (trace (onMessage cfg fr s)) = early (trace s) @ greeted cfg (Message fr)"
  apply (cases fr)
   apply (simp add: onMessage_def sendSubscriptionFail_def emit_def early_def)
  subgoal for m
    by (cases "msg_type m")
       (auto simp add: onMessage_def sendSubscriptionFail_def emit_def early_def
          then_initPromise_def onInitResolve_def spawn_def
          split: promise_state.splits option.splits)
  done

lemma early_exec:
  "early (trace (exec_task cfg t s)) = early (trace s) @
     (case t of InitRespond out \<Rightarrow> answer (Settled out) | _ \<Rightarrow> [])"
proof (cases "late_task t")
  case True
  then have "early (trace (exec_task cfg t s)) = early (trace s)"
    by (intro early_extends extends_exec)
  with True show ?thesis by (cases t) simp_all
next
  case False
  then show ?thesis
    by (cases t) (simp_all add: early_init_respond settle_initPromise_def spawn_def)
qed

lemma early_run_task:
  "early (trace (step cfg s (Run i))) = early (trace s) @ responded s (Run i)"
proof (cases "i < length (tasks s)")
  case False
  then show ?thesis by simp
next
  case True
  show ?thesis
  proof (cases "ready (tasks s ! i)")
    case False
    with True show ?thesis by (cases "tasks s ! i") simp_all
  next
    case r: True
    with True show ?thesis by (simp add: early_exec)
  qed
qed

lemma early_step:
  "early (trace (step cfg s ev)) = early (trace s) @ greeted cfg ev @ responded s ev"
proof (cases ev)
  case (Message fr)
  then show ?thesis by (simp add: early_message)
next
  case (Run i)
  then show ?thesis by (simp del: step.simps responded.simps add: early_run_task)
next
  case (Deliver i error result)
  then show ?thesis
    by (simp add: callback_def sendSubscriptionData_def emit_def early_def)
next
  case ConnectionClosed
  then show ?thesis by (simp add: early_closed)
qed (simp_all add: flushed_def timer_fires_def emit_def early_def split: list.splits)

lemma answer_response: "filter init_response (answer p) = answer p"
  by (cases p) (auto split: option.splits dest: init_result_type)

lemma answer_no_call: "filter connect_call (answer p) = []"
  by (cases p) (auto split: option.splits)

lemma respond_ready: "respond_task t \<Longrightarrow> ready t"
  by (cases t) simp_all

lemma greeted_response: "filter init_response (greeted cfg ev) = []"
  by (cases "(cfg, ev)" rule: greeted.cases) simp_all

lemma greeted_call: "filter connect_call (greeted cfg ev) = greeted cfg ev"
  by (cases "(cfg, ev)" rule: greeted.cases) simp_all

lemma responded_response: "filter init_response (responded s ev) = responded s ev"
proof (cases ev)
  case (Run i)
  show ?thesis
  proof (cases "i < length (tasks s)")
    case True
    then show ?thesis unfolding Run by (cases "tasks s ! i") (simp_all del: answer.simps add: answer_response)
  next
    case False
    then show ?thesis unfolding Run by simp
  qed
qed simp_all

lemma responded_call: "filter connect_call (responded s ev) = []"
proof (cases ev)
  case (Run i)
  show ?thesis
  proof (cases "i < length (tasks s)")
    case True
    then show ?thesis unfolding Run by (cases "tasks s ! i") (simp_all del: answer.simps add: answer_no_call)
  next
    case False
    then show ?thesis unfolding Run by simp
  qed
qed simp_all

lemma responses_step:
  "filter init_response (trace (step cfg s ev)) = filter init_response (trace s) @ responded s ev"
proof -
  have "filter init_response (trace (step cfg s ev)) =
      filter init_response (early (trace (step cfg s ev)))"
    by (rule response_early)
  also have "\<dots> = filter init_response (early (trace s)) @ responded s ev"
    by (simp only: early_step filter_append greeted_response responded_response append_Nil)
  finally show ?thesis by (simp only: response_early [symmetric])
qed

lemma calls_step:
  "filter connect_call (trace (step cfg s ev)) = filter connect_call (trace s) @ greeted cfg ev"
proof -
  have "filter connect_call (trace (step cfg s ev)) =
      filter connect_call (early (trace (step cfg s ev)))"
    by (rule call_early)
  also have "\<dots> = filter connect_call (early (trace s)) @ greeted cfg ev"
    by (simp only: early_step filter_append greeted_call responded_call append_Nil2)
  finally show ?thesis by (simp only: call_early [symmetric])
qed

lemma greeted_length:
  "length (greeted cfg ev) = (if init_message ev \<and> onConnect cfg \<noteq> None then 1 else 0)"
  by (cases "(cfg, ev)" rule: greeted.cases) simp_all

lemma calls_run:
  "length (filter connect_call (trace (run cfg s evs))) =
     length (filter connect_call (trace s)) +
       (if onConnect cfg \<noteq> None then length (filter init_message evs) else 0)"
  by (induction evs rule: rev_induct) (simp_all add: run_Nil run_snoc calls_step greeted_length)

section \<open>Counting the handshake messages\<close>

lemma count_react:
  "length (filter respond_task (concat (map (react out) rs))) =
   length (filter (\<lambda>r. r = OnInit) rs)"
proof (induction rs)
  case Nil
  then show ?case by simp
next
  case (Cons r rs)
  then show ?case by (cases r; cases out) simp_all
qed

lemma count_remove:
  assumes "i < length xs"
  shows "length (filter P (take i xs @ drop (Suc i) xs)) + (if P (xs ! i) then 1 else 0) =
     length (filter P xs)"
proof -
  have "xs = take i xs @ xs ! i # drop (Suc i) xs"
    using assms by (rule id_take_nth_drop)
  then have "length (filter P xs) = length (filter P (take i xs @ xs ! i # drop (Suc i) xs))"
    by simp
  then show ?thesis by simp
qed

lemma count_update:
  assumes "i < length xs" and "P y = P (xs ! i)"
  shows "length (filter P (xs[i := y])) = length (filter P xs)"
proof -
  have "length (filter P (xs[i := y])) = length (filter P (take i xs @ y # drop (Suc i) xs))"
    using assms(1) by (simp add: upd_conv_take_nth_drop)
  also have "\<dots> = length (filter P (take i xs @ xs ! i # drop (Suc i) xs))"
    using assms(2) by simp
  also have "\<dots> = length (filter P xs)"
    using assms(1) by (simp add: id_take_nth_drop [symmetric])
  finally show ?thesis .
qed

lemma late_not_respond: "list_all late_task ts \<Longrightarrow> filter respond_task ts = []"
  by (induction ts) (auto elim: late_task.elims)

lemma unanswered_extends: "extends s s' \<Longrightarrow> unanswered s' = unanswered s"
proof -
  assume e: "extends s s'"
  then obtain ts where "tasks s' = tasks s @ ts" "list_all late_task ts"
    using extends_tasks by blast
  moreover from e have "reactions s' = reactions s" by (simp add: extends_def)
  ultimately show ?thesis by (simp add: unanswered_def late_not_respond)
qed

lemma respond_react_start [simp]:
  "filter respond_task (react out (OnStart m)) = []"
  "filter respond_task (react out (OnEnd m)) = []"
  by (cases out; simp)+

lemma respond_follow [simp]: "\<not> respond_task (follow q)"
  by (cases q) simp_all

lemma unanswered_message:
  "unanswered (onMessage cfg fr s) = unanswered s + (if init_message (Message fr) then 1 else 0)"
  apply (cases fr)
   apply (simp add: onMessage_def sendSubscriptionFail_def emit_def unanswered_def)
  subgoal for m
    apply (cases "msg_type m")
    apply (auto simp add: onMessage_def sendSubscriptionFail_def emit_def unanswered_def
          then_initPromise_def onInitResolve_def spawn_def
          split: promise_state.splits settle.splits)
    done
  done

lemma unanswered_exec:
  "\<not> respond_task t \<Longrightarrow> unanswered (exec_task cfg t s) = unanswered s"
proof (cases "late_task t")
  case True
  then show ?thesis by (intro unanswered_extends extends_exec)
next
  case False
  assume "\<not> respond_task t"
  with False show ?thesis
    by (cases t) (simp_all add: unanswered_def settle_initPromise_def spawn_def count_react)
qed

lemma unanswered_run_task:
  "unanswered (step cfg s (Run i)) + (if responding s (Run i) then 1 else 0) = unanswered s"
proof (cases "i < length (tasks s) \<and> ready (tasks s ! i)")
  case False
  then show ?thesis by (auto dest: respond_ready)
next
  case True
  define t where "t = tasks s ! i"
  define s0 where "s0 = s\<lparr>tasks := take i (tasks s) @ drop (Suc i) (tasks s)\<rparr>"
  from True have st: "step cfg s (Run i) = exec_task cfg t s0"
    by (simp add: t_def s0_def)
  from True have i: "i < length (tasks s)" by simp
  have u0: "unanswered s0 + (if respond_task t then 1 else 0) = unanswered s"
    using count_remove [OF i, of respond_task] by (simp add: unanswered_def s0_def t_def)
  have rs: "responding s (Run i) = respond_task t" using i by (simp add: t_def)
  show ?thesis
  proof (cases "respond_task t")
    case False
    then have "unanswered (exec_task cfg t s0) = unanswered s0" by (rule unanswered_exec)
    with u0 False show ?thesis unfolding st rs by simp
  next
    case True
    then obtain out where "t = InitRespond out" by (cases t) simp_all
    then have "unanswered (exec_task cfg t s0) = unanswered s0"
      by (simp add: unanswered_def init_respond_keeps)
    with u0 True show ?thesis unfolding st rs by simp
  qed
qed

lemma unanswered_step:
  "unanswered (step cfg s ev) + (if responding s ev then 1 else 0) =
   unanswered s + (if init_message ev then 1 else 0)"
proof (cases ev)
  case (Message fr)
  then show ?thesis by (simp add: unanswered_message)
next
  case (Run i)
  then show ?thesis using unanswered_run_task [of cfg s i] by simp
next
  case (HookSettles i out)
  then show ?thesis by (simp add: unanswered_def count_update)
next
  case (EngineSettles i r)
  then show ?thesis by (simp add: unanswered_def count_update)
next
  case (Deliver i error result)
  then show ?thesis by (simp add: unanswered_def callback_def sendSubscriptionData_def emit_def)
next
  case Flushed
  then show ?thesis by (simp add: unanswered_def flushed_def emit_def split: list.splits)
next
  case TimerFires
  then show ?thesis by (simp add: unanswered_def timer_fires_def emit_def)
next
  case ConnectionClosed
  then show ?thesis by (simp add: unanswered_def closed_keeps)
qed

lemma wf_respond:
  assumes "wf s" and "i < length (tasks s)" and "tasks s ! i = InitRespond out"
  shows "initPromise s = Settled out"
proof (cases "initPromise s")
  case Pending
  with assms show ?thesis by (simp add: wf_def)
next
  case Locked
  with assms(1) have "list_all connect_task (tasks s)" by (simp add: wf_def)
  then have "connect_task (tasks s ! i)" using assms(2) by (rule list_all_nth)
  with assms(3) show ?thesis by simp
next
  case (Settled out')
  with assms(1) have "list_all (\<lambda>t. \<not> connect_task t \<and> answers out' t) (tasks s)"
    by (simp add: wf_def)
  then have "\<not> connect_task (tasks s ! i) \<and> answers out' (tasks s ! i)"
    using assms(2) by (rule list_all_nth)
  with assms(3) Settled show ?thesis by simp
qed

lemma answer_length: "length (answer p) \<le> Suc 0"
  by (cases p) (simp_all split: option.splits)

lemma responded_length: "length (responded s ev) \<le> (if responding s ev then 1 else 0)"
proof (cases ev)
  case (Run i)
  show ?thesis
  proof (cases "i < length (tasks s)")
    case True
    then show ?thesis unfolding Run
      by (cases "tasks s ! i") (simp_all del: answer.simps add: answer_length)
  next
    case False
    then show ?thesis unfolding Run by simp
  qed
qed simp_all

lemma responded_answer:
  assumes "wf s"
  shows "responded s ev = (if responding s ev then answer (initPromise s) else [])"
proof (cases ev)
  case (Run i)
  show ?thesis
  proof (cases "i < length (tasks s)")
    case False
    then show ?thesis unfolding Run by simp
  next
    case True
    show ?thesis
    proof (cases "respond_task (tasks s ! i)")
      case False
      with True show ?thesis unfolding Run by (cases "tasks s ! i") simp_all
    next
      case r: True
      then obtain out where t: "tasks s ! i = InitRespond out" by (cases "tasks s ! i") simp_all
      with assms True have "initPromise s = Settled out" by (rule wf_respond)
      with t True show ?thesis unfolding Run by simp
    qed
  qed
qed simp_all

lemma answered_le:
  "length (filter init_response (trace (run cfg accepted evs))) + unanswered (run cfg accepted evs)
     \<le> length (filter init_message evs)"
proof (induction evs rule: rev_induct)
  case Nil
  show ?case by (simp add: run_Nil accepted_def unanswered_def)
next
  case (snoc ev evs)
  let ?s = "run cfg accepted evs"
  have "length (filter init_response (trace (step cfg ?s ev))) + unanswered (step cfg ?s ev)
      \<le> length (filter init_response (trace ?s)) + (if responding ?s ev then 1 else 0)
         + unanswered (step cfg ?s ev)"
    using responded_length [of ?s ev] by (simp add: responses_step del: step.simps)
  also have "\<dots> = length (filter init_response (trace ?s)) + unanswered ?s
       + (if init_message ev then 1 else 0)"
    using unanswered_step [of cfg ?s ev] by simp
  finally show ?case using snoc.IH
    by (auto simp add: run_snoc simp del: step.simps split: if_splits)
qed

lemma answered_eq:
  assumes "\<forall>out. initPromise (run cfg accepted evs) = Settled out \<longrightarrow> init_result out \<noteq> None"
  shows "length (filter init_response (trace (run cfg accepted evs))) + unanswered (run cfg accepted evs)
     = length (filter init_message evs)"
  using assms
proof (induction evs rule: rev_induct)
  case Nil
  show ?case by (simp add: run_Nil accepted_def unanswered_def)
next
  case (snoc ev evs)
  let ?s = "run cfg accepted evs"
  have w: "wf ?s" using wf_accepted by (rule wf_run)
  have ok: "\<forall>out. initPromise ?s = Settled out \<longrightarrow> init_result out \<noteq> None"
  proof (intro allI impI)
    fix out assume "initPromise ?s = Settled out"
    with w have "initPromise (step cfg ?s ev) = Settled out" by (rule settled_step)
    with snoc.prems show "init_result out \<noteq> None" by (simp add: run_snoc del: step.simps)
  qed
  then have IH: "length (filter init_response (trace ?s)) + unanswered ?s
     = length (filter init_message evs)" by (rule snoc.IH)
  have "length (answer (initPromise ?s)) = 1" if "responding ?s ev"
  proof -
    from that obtain i where ev: "ev = Run i" and i: "i < length (tasks ?s)"
      and r: "respond_task (tasks ?s ! i)"
      by (cases ev) simp_all
    from r obtain out where "tasks ?s ! i = InitRespond out" by (cases "tasks ?s ! i") simp_all
    with w i have "initPromise ?s = Settled out" by (rule wf_respond)
    with ok show ?thesis by auto
  qed
  then have "length (responded ?s ev) = (if responding ?s ev then 1 else 0)"
    by (simp add: responded_answer [OF w])
  then have "length (filter init_response (trace (step cfg ?s ev))) + unanswered (step cfg ?s ev)
      = length (filter init_response (trace ?s)) + (if responding ?s ev then 1 else 0)
         + unanswered (step cfg ?s ev)"
    by (simp add: responses_step del: step.simps)
  also have "\<dots> = length (filter init_response (trace ?s)) + unanswered ?s
       + (if init_message ev then 1 else 0)"
    using unanswered_step [of cfg ?s ev] by simp
  finally show ?case using IH
    by (auto simp add: run_snoc simp del: step.simps split: if_splits)
qed

lemma responses_answer:
  "set (filter init_response (trace (run cfg accepted evs)))
     \<subseteq> set (answer (initPromise (run cfg accepted evs)))"
proof (induction evs rule: rev_induct)
  case Nil
  show ?case by (simp add: run_Nil accepted_def)
next
  case (snoc ev evs)
  let ?s = "run cfg accepted evs"
  have w: "wf ?s" using wf_accepted by (rule wf_run)
  have f: "filter init_response (trace (step cfg ?s ev)) =
      filter init_response (trace ?s) @ (if responding ?s ev then answer (initPromise ?s) else [])"
    by (simp only: responses_step responded_answer [OF w])
  show ?case
  proof (cases "initPromise ?s")
    case (Settled out)
    with w have "initPromise (step cfg ?s ev) = Settled out" by (rule settled_step)
    with snoc.IH Settled f show ?thesis by (auto simp add: run_snoc simp del: step.simps)
  next
    case Pending
    with snoc.IH have e: "filter init_response (trace ?s) = []" by simp
    show ?thesis unfolding run_snoc f e using Pending by simp
  next
    case Locked
    with snoc.IH have e: "filter init_response (trace ?s) = []" by simp
    show ?thesis unfolding run_snoc f e using Locked by simp
  qed
qed

section \<open>The first handshake message decides\<close>

lemma follows_follow: "follows q (follow q)"
  by (cases q) simp_all

lemma follows_hook_settles: "follows q t \<Longrightarrow> follows q (hook_settles out t)"
  by (cases t; cases q) simp_all

lemma follows_engine_settles: "follows q (engine_settles r t) = follows q t"
  by (cases t; cases r) simp_all

lemma onMessage_locked:
  "initPromise s = Locked \<Longrightarrow>
   initPromise (onMessage cfg fr s) = Locked \<and> tasks (onMessage cfg fr s) = tasks s"
  by (cases fr)
     (auto simp add: onMessage_def sendSubscriptionFail_def emit_def then_initPromise_def
        onInitResolve_def split: message_type.splits)

lemma led_settled: "initPromise s = Settled out \<Longrightarrow> led q s \<longleftrightarrow> decided q (Settled out)"
  by (simp add: led_def)

lemma led_step:
  assumes "wf s" and "led q s"
  shows "led q (step cfg s ev)"
proof (cases "initPromise s")
  case Pending
  with assms(2) show ?thesis by (simp add: led_def)
next
  case (Settled out)
  with assms(1) have "initPromise (step cfg s ev) = Settled out" by (rule settled_step)
  with assms(2) Settled show ?thesis by (simp add: led_settled del: step.simps)
next
  case Locked
  with assms(2) have f: "list_all (follows q) (tasks s)" by (simp add: led_def)
  show ?thesis
  proof (cases ev)
    case (Message fr)
    with Locked f onMessage_locked [OF Locked, of cfg fr] show ?thesis
      by (simp add: led_def)
  next
    case (Run i)
    show ?thesis
    proof (cases "i < length (tasks s) \<and> ready (tasks s ! i)")
      case False
      with assms(2) Run show ?thesis by auto
    next
      case True
      from assms(1) Locked have c: "list_all connect_task (tasks s)" by (simp add: wf_def)
      from c True have "connect_task (tasks s ! i)" by (simp add: list_all_length)
      with True obtain out where t: "tasks s ! i = AdoptConnect out"
        by (cases "tasks s ! i") simp_all
      from f True have "follows q (tasks s ! i)" by (simp add: list_all_length)
      with t have "decided q (Settled out)" by simp
      with True t Run show ?thesis by (simp add: led_def settle_initPromise_def)
    qed
  next
    case (HookSettles i out)
    with Locked f show ?thesis
      by (simp add: led_def list_all_length nth_list_update follows_hook_settles)
  next
    case (EngineSettles i r)
    with Locked f show ?thesis
      by (simp add: led_def list_all_length nth_list_update follows_engine_settles)
  next
    case (Deliver i error result)
    with Locked f show ?thesis
      by (simp add: led_def callback_def sendSubscriptionData_def emit_def)
  next
    case Flushed
    with Locked f show ?thesis
      by (simp add: led_def flushed_def emit_def split: list.splits)
  next
    case TimerFires
    with Locked f show ?thesis by (simp add: led_def timer_fires_def emit_def)
  next
    case ConnectionClosed
    with Locked f show ?thesis by (simp add: led_def closed_keeps)
  qed
qed

lemma led_run: "wf s \<Longrightarrow> led q s \<Longrightarrow> led q (run cfg s evs)"
  by (induction evs arbitrary: s) (simp_all add: run_Nil run_Cons wf_step led_step del: step.simps)

lemma pending_step:
  assumes "wf s" and "initPromise s = Pending" and "\<not> init_message ev"
  shows "initPromise (step cfg s ev) = Pending"
proof (cases ev)
  case (Message fr)
  with assms(2,3) show ?thesis
    by (cases fr)
       (auto simp add: onMessage_def sendSubscriptionFail_def emit_def then_initPromise_def
          split: message_type.splits)
next
  case (Run i)
  from assms(1,2) have "tasks s = []" by (simp add: wf_def)
  with Run assms(2) show ?thesis by simp
next
  case (Deliver i error result)
  with assms(2) show ?thesis by (simp add: callback_def sendSubscriptionData_def emit_def)
next
  case Flushed
  with assms(2) show ?thesis by (simp add: flushed_def emit_def split: list.splits)
next
  case TimerFires
  with assms(2) show ?thesis by (simp add: timer_fires_def emit_def)
next
  case ConnectionClosed
  with assms(2) show ?thesis by (simp add: closed_keeps)
qed (use assms(2) in simp_all)

lemma pending_run:
  "wf s \<Longrightarrow> initPromise s = Pending \<Longrightarrow> \<not> list_ex init_message evs \<Longrightarrow>
   initPromise (run cfg s evs) = Pending"
  by (induction evs arbitrary: s)
     (simp_all add: run_Nil run_Cons wf_step pending_step del: step.simps)

lemma led_first:
  assumes "wf s" and "initPromise s = Pending" and "msg_type m = INIT"
  shows "led (onConnectPromise cfg m) (step cfg s (Message (Parsed m)))"
proof -
  from assms(1,2) have "tasks s = []" by (simp add: wf_def)
  with assms(2,3) show ?thesis
    by (simp add: led_def onMessage_def then_initPromise_def onInitResolve_def spawn_def
        emit_def follows_follow)
qed

lemma first_init_decides:
  assumes "\<not> list_ex init_message evs1" and "msg_type m = INIT"
  shows "decided (onConnectPromise cfg m)
     (initPromise (run cfg accepted (evs1 @ Message (Parsed m) # evs2)))"
proof -
  let ?s = "run cfg accepted evs1"
  have w: "wf ?s" using wf_accepted by (rule wf_run)
  have p: "initPromise ?s = Pending"
    using wf_accepted _ assms(1) by (rule pending_run) (simp add: accepted_def)
  let ?s1 = "step cfg ?s (Message (Parsed m))"
  have w1: "wf ?s1" using w by (rule wf_step)
  have l1: "led (onConnectPromise cfg m) ?s1" using w p assms(2) by (rule led_first)
  have "led (onConnectPromise cfg m) (run cfg ?s1 evs2)" using w1 l1 by (rule led_run)
  then show ?thesis by (simp add: led_def run_append run_Cons del: step.simps)
qed

section \<open>The keys of the registry\<close>

lemma keys_start_subscribe:
  "connectionSubscriptions (start_subscribe m out s) = connectionSubscriptions s"
  by (cases out) (simp_all add: spawn_def emit_def sendSubscriptionFail_def)

lemma keys_exec:
  "distinct (map fst (connectionSubscriptions s)) \<Longrightarrow>
   distinct (map fst (connectionSubscriptions (exec_task cfg t s)))"
  by (cases t)
     (simp_all add: settle_initPromise_def init_respond_keeps start_setup_def Let_def
        replace_existing_def end_run_def start_install_def start_fail_def keys_start_subscribe
        spawn_def emit_def unsubscribe_def delete_sub_def sendSubscriptionFail_def
        sendSubscriptionSuccess_def distinct_delete distinct_update
        split: option.splits hook_result.splits)

lemma keys_message:
  "connectionSubscriptions (onMessage cfg fr s) = connectionSubscriptions s"
  by (cases fr)
     (auto simp add: onMessage_def sendSubscriptionFail_def emit_def then_initPromise_def
        onInitResolve_def spawn_def split: message_type.splits promise_state.splits)

lemma keys_close_each:
  "distinct (map fst (connectionSubscriptions s)) \<Longrightarrow>
   distinct (map fst (connectionSubscriptions (close_each cfg ks s)))"
  by (induction ks arbitrary: s)
     (simp_all add: delete_sub_def unsubscribe_def emit_def distinct_delete split: option.splits)

lemma keys_step:
  "distinct (map fst (connectionSubscriptions s)) \<Longrightarrow>
   distinct (map fst (connectionSubscriptions (step cfg s ev)))"
  by (cases ev)
     (simp_all add: keys_message keys_exec callback_def sendSubscriptionData_def emit_def
        flushed_def timer_fires_def closed_def onClose_def Let_def keys_close_each
        split: list.splits)

lemma registry_keys_distinct:
  "distinct (map fst (connectionSubscriptions (run cfg accepted evs)))"
proof (induction evs rule: rev_induct)
  case Nil
  show ?case by (simp add: run_Nil accepted_def)
next
  case (snoc ev evs)
  then show ?case unfolding run_snoc by (rule keys_step)
qed

section \<open>Answering the handshake\<close>

text \<open>
  C1 (amended). On every connection the handshake promise settles at most once: once
  settled it keeps its outcome whatever happens later, and the outcome is that of the
  connect hook call of the first handshake-init. The connect hook, when configured, is
  called for every handshake-init message, not for the first only. Every handshake-init
  message gets at most one handshake-acknowledged or handshake-error response, never one
  per connection: the responses sent and the handshake messages still to be answered are
  together at most as many as the handshake-init messages received, and exactly as many
  unless the promise was rejected with \<^verbatim>\<open>null\<close> or \<^verbatim>\<open>undefined\<close> (then the response chain
  throws and sends nothing). All responses are the one response that the settled outcome
  determines, and none is sent before the promise settles.
\<close>

theorem handshake_answers:
  fixes cfg evs
  defines "s \<equiv> run cfg accepted evs"
  shows "(\<forall>out evs'. initPromise s = Settled out \<longrightarrow> initPromise (run cfg s evs') = Settled out)
    \<and> (\<forall>evs1 m evs2. evs = evs1 @ Message (Parsed m) # evs2 \<and> \<not> list_ex init_message evs1
          \<and> msg_type m = INIT \<longrightarrow> decided (onConnectPromise cfg m) (initPromise s))
    \<and> (onConnect cfg \<noteq> None \<longrightarrow>
          length (filter connect_call (trace s)) = length (filter init_message evs))
    \<and> length (filter init_response (trace s)) + unanswered s \<le> length (filter init_message evs)
    \<and> ((\<forall>out. initPromise s = Settled out \<longrightarrow> init_result out \<noteq> None) \<longrightarrow>
          length (filter init_response (trace s)) + unanswered s = length (filter init_message evs))
    \<and> set (filter init_response (trace s)) \<subseteq> set (answer (initPromise s))"
proof (intro conjI allI impI)
  have w: "wf s" unfolding s_def using wf_accepted by (rule wf_run)
  show "initPromise (run cfg s evs') = Settled out" if "initPromise s = Settled out" for out evs'
    using w that by (rule settled_run)
  show "decided (onConnectPromise cfg m) (initPromise s)"
    if "evs = evs1 @ Message (Parsed m) # evs2 \<and> \<not> list_ex init_message evs1 \<and> msg_type m = INIT"
    for evs1 m evs2
    unfolding s_def using that first_init_decides [of evs1 m cfg evs2] by simp
  show "length (filter connect_call (trace s)) = length (filter init_message evs)"
    if "onConnect cfg \<noteq> None"
    unfolding s_def using that by (simp add: calls_run accepted_def)
  show "length (filter init_response (trace s)) + unanswered s \<le> length (filter init_message evs)"
    unfolding s_def by (rule answered_le)
  show "length (filter init_response (trace s)) + unanswered s = length (filter init_message evs)"
    if "\<forall>out. initPromise s = Settled out \<longrightarrow> init_result out \<noteq> None"
    using that unfolding s_def by (rule answered_eq)
  show "set (filter init_response (trace s)) \<subseteq> set (answer (initPromise s))"
    unfolding s_def by (rule responses_answer)
qed

theorem handshake_answers_witness:
  "initPromise (run greeting_server accepted two_inits) = Settled (Fulfil (JBool True))
   \<and> initPromise (run greeting_server (run greeting_server accepted two_inits)
        [Message (Parsed (message INIT None))]) = Settled (Fulfil (JBool True))
   \<and> two_inits = [] @ Message (Parsed (message INIT None)) #
        [Run 0, Run 0, Message (Parsed (message INIT None)), Run 0]
   \<and> \<not> list_ex init_message [] \<and> msg_type (message INIT None) = INIT
   \<and> decided (onConnectPromise greeting_server (message INIT None))
        (initPromise (run greeting_server accepted two_inits))
   \<and> onConnect greeting_server \<noteq> None
   \<and> length (filter init_message two_inits) = 2
   \<and> length (filter connect_call (trace (run greeting_server accepted two_inits))) = 2
   \<and> init_result (Fulfil (JBool True)) \<noteq> None
   \<and> length (filter init_response (trace (run greeting_server accepted two_inits)))
        + unanswered (run greeting_server accepted two_inits) = 2"
proof -
  let ?s = "run greeting_server accepted two_inits"
  note T = handshake_answers [of greeting_server two_inits]
  have i: "initPromise ?s = Settled (Fulfil (JBool True))" by code_simp
  have t: "two_inits = [] @ Message (Parsed (message INIT None)) #
        [Run 0, Run 0, Message (Parsed (message INIT None)), Run 0]"
    by (simp add: two_inits_def)
  have m: "\<not> list_ex init_message []" "msg_type (message INIT None) = INIT"
    by (simp_all add: message_def)
  have h: "onConnect greeting_server \<noteq> None"
    by (simp add: greeting_server_def plain_server_def)
  have n: "length (filter init_message two_inits) = 2"
    by (simp add: two_inits_def message_def)
  have r: "init_result (Fulfil (JBool True)) \<noteq> None" by simp
  from i r have ok: "\<forall>out. initPromise ?s = Settled out \<longrightarrow> init_result out \<noteq> None"
    by simp
  from T i have c1: "initPromise (run greeting_server ?s [Message (Parsed (message INIT None))])
      = Settled (Fulfil (JBool True))" by blast
  from T t m have c2: "decided (onConnectPromise greeting_server (message INIT None)) (initPromise ?s)"
    by blast
  from T h have c3: "length (filter connect_call (trace ?s)) = length (filter init_message two_inits)"
    by blast
  from T ok have c5: "length (filter init_response (trace ?s)) + unanswered ?s
      = length (filter init_message two_inits)" by blast
  from i c1 t m c2 h n c3 r c5 show ?thesis by (simp only: simp_thms)
qed

text \<open>
  C1 as stated fails: a second handshake-init, sent after the first has been answered,
  calls the connect hook again and is answered with a second handshake-acknowledged.
\<close>

theorem second_init_answered_counterexample:
  "trace (run greeting_server accepted
      [Message (Parsed (message INIT None)), Run 0, Run 0,
       Message (Parsed (message INIT None)), Run 0]) =
     [Call_onConnect JUndefined,
      Send \<lparr>out_type = INIT_SUCCESS, out_id = JUndefined, out_payload = JUndefined\<rparr>,
      Call_onConnect JUndefined,
      Send \<lparr>out_type = INIT_SUCCESS, out_id = JUndefined, out_payload = JUndefined\<rparr>]"
  by code_simp

section \<open>Before the handshake is fulfilled\<close>

text \<open>
  C2. As long as the handshake promise is not fulfilled, the subscription-start and
  subscription-end messages received have had no effect: the connection is in the state it
  would be in had they never been sent, except that their callbacks wait on the promise. In
  particular the registry is empty and no before-subscribe or after-unsubscribe hook call,
  no engine \<^verbatim>\<open>subscribe\<close> or \<^verbatim>\<open>unsubscribe\<close> call and no subscription-success or
  subscription-data response has been made; the subscription-errors sent are those that the
  other messages get. This holds for every sequence of events after the connection is
  accepted, so also for messages that arrive immediately.
\<close>

theorem no_effect_before_handshake:
  assumes "\<not> fulfilled (initPromise (run cfg accepted evs))"
  shows "run cfg accepted (filter (\<lambda>ev. \<not> subscription_message ev) evs) =
       handshake_only (run cfg accepted evs)
     \<and> connectionSubscriptions (run cfg accepted evs) = []
     \<and> list_all (\<lambda>e. \<not> subscription_effect e) (trace (run cfg accepted evs))"
proof -
  have "wf (run cfg accepted evs)" using wf_accepted by (rule wf_run)
  then have "untouched (run cfg accepted evs)" using assms by (rule unfulfilled_untouched)
  with handshake_only_run [OF assms] show ?thesis by (simp add: untouched_def)
qed

theorem no_effect_before_handshake_witness:
  "\<not> fulfilled (initPromise (run plain_server accepted early_messages))
   \<and> run plain_server accepted (filter (\<lambda>ev. \<not> subscription_message ev) early_messages) =
       handshake_only (run plain_server accepted early_messages)
   \<and> connectionSubscriptions (run plain_server accepted early_messages) = []
   \<and> list_all (\<lambda>e. \<not> subscription_effect e) (trace (run plain_server accepted early_messages))
   \<and> filter (\<lambda>ev. \<not> subscription_message ev) early_messages = [Message (Parsed (message INIT None))]
   \<and> trace (run plain_server accepted early_messages) = []"
proof -
  have e: "run plain_server accepted early_messages =
     accepted\<lparr>initPromise := Locked,
       reactions := [OnStart (message SUBSCRIPTION_START (Some ''1'')),
         OnEnd (message SUBSCRIPTION_END (Some ''1'')), OnInit,
         OnStart (message SUBSCRIPTION_START (Some ''2''))],
       tasks := [AdoptConnect (Fulfil (JBool True))]\<rparr>"
    by code_simp
  have h: "\<not> fulfilled (initPromise (run plain_server accepted early_messages))"
    unfolding e by simp
  have f: "filter (\<lambda>ev. \<not> subscription_message ev) early_messages = [Message (Parsed (message INIT None))]"
    by (simp add: early_messages_def message_def)
  have t: "trace (run plain_server accepted early_messages) = []"
    unfolding e by (simp add: accepted_def)
  from no_effect_before_handshake [OF h] h f t show ?thesis by blast
qed

section \<open>A refused handshake\<close>

text \<open>
  What holds of a refusal. A rejection that is not nullish is reported with its
  \<^verbatim>\<open>message\<close>; a handshake-error, once written out, is followed by the timeout and then by
  the closure with the code 1011 and the termination of the socket; and after a rejected
  handshake promise no call of a subscription is ever made.
\<close>

lemma rejection_text:
  "\<not> nullish e \<Longrightarrow>
   init_result (Reject e) = Some \<lparr>out_type = INIT_FAIL, out_id = JUndefined,
     out_payload = JObj [(''error'', prop_js e ''message'')]\<rparr>"
  by (simp add: init_fail_def)

lemma handshake_error_then_close:
  assumes "init_result out = Some r" and "out_type r = INIT_FAIL"
    and "flushing s = []" and "timers s = 0"
  shows "run cfg (init_respond out s) [Flushed, TimerFires] =
     s\<lparr>trace := trace s @ [Send r, SetTimeout 10, Close 1011, Terminate]\<rparr>"
  using assms
  by (simp add: run_def init_respond_def sendInitResult_def flushed_def timer_fires_def emit_def)

lemma thrown_handshake_closes:
  "trace (run throwing_server accepted
      [Message (Parsed (message INIT None)), Run 0, Run 0, Flushed, TimerFires]) =
     [Call_onConnect JUndefined,
      Send \<lparr>out_type = INIT_FAIL, out_id = JUndefined,
        out_payload = JObj [(''error'', JStr ''denied'')]\<rparr>,
      SetTimeout 10, Close 1011, Terminate]"
  by code_simp

lemma rejected_never_subscribes:
  assumes "initPromise (run cfg accepted evs) = Settled (Reject e)"
  shows "list_all (\<lambda>x. \<not> subscription_effect x) (trace (run cfg accepted (evs @ evs')))"
proof -
  have w: "wf (run cfg accepted evs)" using wf_accepted by (rule wf_run)
  from w assms have "initPromise (run cfg (run cfg accepted evs) evs') = Settled (Reject e)"
    by (rule settled_run)
  then have r: "initPromise (run cfg accepted (evs @ evs')) = Settled (Reject e)"
    by (simp add: run_append)
  have "wf (run cfg accepted (evs @ evs'))" using wf_accepted by (rule wf_run)
  then have "untouched (run cfg accepted (evs @ evs'))"
    by (rule unfulfilled_untouched) (simp add: r)
  then show ?thesis by (simp add: untouched_def)
qed

text \<open>
  C3 (the code departs from the claim). The connect hook returns \<^verbatim>\<open>false\<close>; the client sends
  the handshake-init and a subscription-start one after the other. The handshake promise is
  fulfilled with \<^verbatim>\<open>false\<close>, so the continuation of the subscription-start runs: the server
  sends the handshake-error with the text of the refusal and, after it, a subscription-success,
  before the timeout closes the connection with the code 1011 and terminates it.
\<close>

theorem refused_handshake_subscribes:
  "trace (run refusing_server accepted
      [Message (Parsed (message INIT None)),
       Message (Parsed (message SUBSCRIPTION_START (Some ''1''))),
       Run 0, Run 1, Run 1, Run 0, EngineSettles 0 (Subscribed 1), Run 0, Flushed, TimerFires]) =
     [Call_onConnect JUndefined,
      EngineSubscribe (baseParams (message SUBSCRIPTION_START (Some ''1'')) (JBool False)) (Some ''1''),
      Send \<lparr>out_type = INIT_FAIL, out_id = JUndefined,
        out_payload = JObj [(''error'', JStr ''Prohibited connection!'')]\<rparr>,
      Send \<lparr>out_type = SUBSCRIPTION_SUCCESS, out_id = JStr ''1'', out_payload = JUndefined\<rparr>,
      SetTimeout 10, Close 1011, Terminate]"
  by code_simp

section \<open>Replacing a subscription\<close>

text \<open>With a stored handle other than 0 (and no before-subscribe hook) the continuation of a
  subscription-start unsubscribes the handle and removes the entry before the params go on
  to the \<^verbatim>\<open>subscribe\<close> call.\<close>

lemma nonzero_handle_replaced:
  assumes "map_of (connectionSubscriptions s) (subId_key (msg_id m)) = Some h" and "h \<noteq> 0"
    and "onSubscribe cfg = None"
  shows "start_setup cfg m v s =
     s\<lparr>tasks := tasks s @ [StartSubscribe m (Fulfil (baseParams m v))],
       trace := trace s @ EngineUnsubscribe h #
         (if onUnsubscribe cfg then [Call_onUnsubscribe] else []),
       connectionSubscriptions :=
         AList.delete (subId_key (msg_id m)) (connectionSubscriptions s)\<rparr>"
  using assms
  by (simp add: start_setup_def Let_def replace_existing_def delete_sub_def unsubscribe_def
      emit_def spawn_def)

text \<open>
  C8. When the handle stored for a subscription id is the number 0, the continuation of a
  subscription-start for that id leaves the registry as it is and makes no \<^verbatim>\<open>unsubscribe\<close>
  call (its test is the truthiness of the stored handle), whereas the continuation of a
  subscription-end for that id unsubscribes the handle 0 and removes the entry (its test is
  that the entry is not undefined).
\<close>

theorem zero_handle_not_replaced:
  assumes "map_of (connectionSubscriptions s) (subId_key (msg_id m)) = Some 0"
    and "i < length (tasks s)"
  shows "(tasks s ! i = StartSetup m v \<longrightarrow>
            connectionSubscriptions (step cfg s (Run i)) = connectionSubscriptions s
          \<and> take (length (trace s)) (trace (step cfg s (Run i))) = trace s
          \<and> unsubscribed (since s (step cfg s (Run i))) = [])
       \<and> (tasks s ! i = EndRun m \<longrightarrow>
            connectionSubscriptions (step cfg s (Run i)) =
              AList.delete (subId_key (msg_id m)) (connectionSubscriptions s)
          \<and> map_of (connectionSubscriptions (step cfg s (Run i))) (subId_key (msg_id m)) = None
          \<and> take (length (trace s)) (trace (step cfg s (Run i))) = trace s
          \<and> unsubscribed (since s (step cfg s (Run i))) = [0])"
  using assms
  by (auto simp add: Let_def start_setup_def end_run_def replace_existing_def since_def spawn_def emit_def
      unsubscribe_def delete_sub_def delete_conv
      split: option.splits hook_result.splits)

theorem zero_handle_not_replaced_witness:
  "map_of (connectionSubscriptions restarting) (subId_key (msg_id (message SUBSCRIPTION_START (Some ''a'')))) = Some 0
   \<and> map_of (connectionSubscriptions restarting) (subId_key (msg_id (message SUBSCRIPTION_END (Some ''a'')))) = Some 0
   \<and> 0 < length (tasks restarting) \<and> 1 < length (tasks restarting)
   \<and> tasks restarting ! 0 = StartSetup (message SUBSCRIPTION_START (Some ''a'')) (JBool True)
   \<and> tasks restarting ! 1 = EndRun (message SUBSCRIPTION_END (Some ''a''))
   \<and> connectionSubscriptions (step plain_server restarting (Run 0)) = [(''a'', 0), (''b'', 7)]
   \<and> unsubscribed (since restarting (step plain_server restarting (Run 0))) = []
   \<and> connectionSubscriptions (step plain_server restarting (Run 1)) = [(''b'', 7)]
   \<and> unsubscribed (since restarting (step plain_server restarting (Run 1))) = [0]"
proof -
  have a: "map_of (connectionSubscriptions restarting) (subId_key (msg_id (message SUBSCRIPTION_START (Some ''a'')))) = Some 0"
    and b: "map_of (connectionSubscriptions restarting) (subId_key (msg_id (message SUBSCRIPTION_END (Some ''a'')))) = Some 0"
    and l0: "0 < length (tasks restarting)" and l1: "1 < length (tasks restarting)"
    and t0: "tasks restarting ! 0 = StartSetup (message SUBSCRIPTION_START (Some ''a'')) (JBool True)"
    and t1: "tasks restarting ! 1 = EndRun (message SUBSCRIPTION_END (Some ''a''))"
    by (simp_all add: restarting_def subscribed_def message_def subId_key_def)
  have v: "connectionSubscriptions restarting = [(''a'', 0), (''b'', 7)]"
    "subId_key (msg_id (message SUBSCRIPTION_END (Some ''a''))) = ''a''"
    by (simp_all add: restarting_def subscribed_def message_def subId_key_def)
  from zero_handle_not_replaced [OF a l0, of "JBool True" plain_server]
       zero_handle_not_replaced [OF b l1, of "JBool True" plain_server]
       a b l0 l1 t0 t1
  show ?thesis
    by (simp del: step.simps add: v)
qed

text \<open>
  C4 (the code departs from the claim). The engine returns the handle 0 for the first
  subscription \<open>a\<close>; a second subscription-start for \<open>a\<close> then calls \<^verbatim>\<open>subscribe\<close> with no
  \<^verbatim>\<open>unsubscribe\<close> of the handle 0 before it, the new handle 1 overwrites the entry, and
  closing the connection unsubscribes the handle 1 only: the handle 0 is never unsubscribed.
\<close>

theorem zero_handle_orphaned:
  "trace (run plain_server accepted
      [Message (Parsed (message INIT None)), Run 0, Run 0,
       Message (Parsed (message SUBSCRIPTION_START (Some ''a''))), Run 0, Run 0,
       EngineSettles 0 (Subscribed 0), Run 0,
       Message (Parsed (message SUBSCRIPTION_START (Some ''a''))), Run 0, Run 0,
       EngineSettles 0 (Subscribed 1), Run 0,
       ConnectionClosed]) =
     [Send \<lparr>out_type = INIT_SUCCESS, out_id = JUndefined, out_payload = JUndefined\<rparr>,
      EngineSubscribe (baseParams (message SUBSCRIPTION_START (Some ''a'')) (JBool True)) (Some ''a''),
      Send \<lparr>out_type = SUBSCRIPTION_SUCCESS, out_id = JStr ''a'', out_payload = JUndefined\<rparr>,
      EngineSubscribe (baseParams (message SUBSCRIPTION_START (Some ''a'')) (JBool True)) (Some ''a''),
      Send \<lparr>out_type = SUBSCRIPTION_SUCCESS, out_id = JStr ''a'', out_payload = JUndefined\<rparr>,
      EngineUnsubscribe 1]"
  by code_simp

section \<open>Closing a connection\<close>

text \<open>
  C5. Closing a connection that has N active subscriptions (a registry of N entries, its
  keys distinct as the keys of an object are) leaves the registry empty and makes exactly N
  \<^verbatim>\<open>unsubscribe\<close> calls on the engine, one for the handle of each entry: the handles called
  are, as a multiset, the handles stored, so each stored handle is unsubscribed exactly as
  often as it is stored, and the calls are pairwise distinct when the stored handles are.
  The calls made before the close stay as they were. The statement is up to the order of the
  calls: \<^verbatim>\<open>Object.keys\<close> lists integer-like keys first, the list here keeps the entries as
  they were inserted. Every registry that a connection reaches has distinct keys
  (\<open>registry_keys_distinct\<close>).
\<close>

theorem close_unsubscribes_all:
  assumes "distinct (map fst (connectionSubscriptions s))"
  shows "connectionSubscriptions (step cfg s ConnectionClosed) = []
    \<and> take (length (trace s)) (trace (step cfg s ConnectionClosed)) = trace s
    \<and> mset (unsubscribed (since s (step cfg s ConnectionClosed))) =
        mset (map snd (connectionSubscriptions s))
    \<and> length (unsubscribed (since s (step cfg s ConnectionClosed))) =
        length (connectionSubscriptions s)
    \<and> (distinct (map snd (connectionSubscriptions s)) \<longrightarrow>
         distinct (unsubscribed (since s (step cfg s ConnectionClosed))))"
proof -
  let ?calls = "concat (map (\<lambda>kv. EngineUnsubscribe (snd kv) #
       (if onUnsubscribe cfg then [Call_onUnsubscribe] else [])) (connectionSubscriptions s))"
  have calls: "unsubscribed (concat (map (\<lambda>kv. EngineUnsubscribe (snd kv) #
       (if onUnsubscribe cfg then [Call_onUnsubscribe] else [])) kvs)) = map snd kvs" for kvs
    by (induction kvs) auto
  have "onClose cfg s = s\<lparr>connectionSubscriptions := [], trace := trace s @ ?calls\<rparr>"
    unfolding onClose_def using close_each_result [OF assms refl] .
  then have cl: "closed cfg s = s\<lparr>connectionSubscriptions := [],
      trace := trace s @ ?calls @ (if onDisconnect cfg then [Call_onDisconnect] else [])\<rparr>"
    by (simp add: closed_def emit_def)
  have un: "unsubscribed (since s (closed cfg s)) = map snd (connectionSubscriptions s)"
    unfolding cl since_def by (simp add: unsubscribed_append calls)
  show ?thesis
    by (simp add: un) (simp add: cl)
qed

theorem close_unsubscribes_all_witness:
  "distinct (map fst (connectionSubscriptions subscribed))
   \<and> distinct (map snd (connectionSubscriptions subscribed))
   \<and> connectionSubscriptions (step plain_server subscribed ConnectionClosed) = []
   \<and> length (unsubscribed (since subscribed (step plain_server subscribed ConnectionClosed))) = 2
   \<and> distinct (unsubscribed (since subscribed (step plain_server subscribed ConnectionClosed)))"
proof -
  have d: "distinct (map fst (connectionSubscriptions subscribed))"
    by (simp add: subscribed_def)
  have d': "distinct (map snd (connectionSubscriptions subscribed))"
    by (simp add: subscribed_def)
  have n: "length (connectionSubscriptions subscribed) = 2"
    by (simp add: subscribed_def)
  from close_unsubscribes_all [OF d, of plain_server] d d' n show ?thesis
    by presburger
qed

section \<open>Delivery of events\<close>

text \<open>
  C6. When the engine calls the delivery callback of a subscription: an error (a truthy
  first argument) with a truthy \<^verbatim>\<open>errors\<close> property is forwarded as a subscription-data
  message whose payload holds that \<^verbatim>\<open>errors\<close> value as it is; any other error is forwarded
  as subscription-data with the one-element errors list holding the error's \<^verbatim>\<open>message\<close>;
  without an error the result is the payload as it is. In every case the call sends that one
  message and does nothing else: no subscription-error is sent, nothing is unsubscribed and
  the registry keeps the subscription.
\<close>

theorem callback_forwards:
  assumes "list_ex (hands_callback i) (trace s)"
  shows "(truthy error \<and> truthy (prop_js error ''errors'') \<longrightarrow>
      step cfg s (Deliver i error result) = s\<lparr>trace := trace s @
        [Send \<lparr>out_type = SUBSCRIPTION_DATA, out_id = subId_js i,
               out_payload = JObj [(''errors'', prop_js error ''errors'')]\<rparr>]\<rparr>)
   \<and> (truthy error \<and> \<not> truthy (prop_js error ''errors'') \<longrightarrow>
      step cfg s (Deliver i error result) = s\<lparr>trace := trace s @
        [Send \<lparr>out_type = SUBSCRIPTION_DATA, out_id = subId_js i,
               out_payload = JObj [(''errors'', JArr [JObj [(''message'', prop_js error ''message'')]])]\<rparr>]\<rparr>)
   \<and> (\<not> truthy error \<longrightarrow>
      step cfg s (Deliver i error result) = s\<lparr>trace := trace s @
        [Send \<lparr>out_type = SUBSCRIPTION_DATA, out_id = subId_js i, out_payload = result\<rparr>]\<rparr>)
   \<and> connectionSubscriptions (step cfg s (Deliver i error result)) = connectionSubscriptions s
   \<and> filter is_fail (trace (step cfg s (Deliver i error result))) = filter is_fail (trace s)
   \<and> unsubscribed (since s (step cfg s (Deliver i error result))) = []"
  using assms
  by (simp add: callback_def sendSubscriptionData_def emit_def errors_of_def since_def)

theorem callback_forwards_witness:
  "list_ex (hands_callback (Some ''b'')) (trace delivering)
   \<and> truthy graphql_error \<and> truthy (prop_js graphql_error ''errors'')
   \<and> truthy (Error_js ''boom'') \<and> \<not> truthy (prop_js (Error_js ''boom'') ''errors'')
   \<and> \<not> truthy JNull
   \<and> trace (step plain_server delivering (Deliver (Some ''b'') graphql_error JUndefined)) =
       [EngineSubscribe (JObj []) (Some ''b''),
        Send \<lparr>out_type = SUBSCRIPTION_DATA, out_id = JStr ''b'',
          out_payload = JObj [(''errors'', JArr [JObj [(''message'', JStr ''bad field'')]])]\<rparr>]
   \<and> trace (step plain_server delivering (Deliver (Some ''b'') (Error_js ''boom'') JUndefined)) =
       [EngineSubscribe (JObj []) (Some ''b''),
        Send \<lparr>out_type = SUBSCRIPTION_DATA, out_id = JStr ''b'',
          out_payload = JObj [(''errors'', JArr [JObj [(''message'', JStr ''boom'')]])]\<rparr>]
   \<and> trace (step plain_server delivering (Deliver (Some ''b'') JNull (JObj [(''data'', JNum 1)]))) =
       [EngineSubscribe (JObj []) (Some ''b''),
        Send \<lparr>out_type = SUBSCRIPTION_DATA, out_id = JStr ''b'',
          out_payload = JObj [(''data'', JNum 1)]\<rparr>]
   \<and> connectionSubscriptions (step plain_server delivering (Deliver (Some ''b'') (Error_js ''boom'') JUndefined))
       = [(''a'', 0), (''b'', 7)]"
proof -
  have h: "list_ex (hands_callback (Some ''b'')) (trace delivering)"
    by (simp add: delivering_def)
  have t: "truthy graphql_error \<and> truthy (prop_js graphql_error ''errors'')
     \<and> truthy (Error_js ''boom'') \<and> \<not> truthy (prop_js (Error_js ''boom'') ''errors'')
     \<and> \<not> truthy JNull"
    by (simp add: graphql_error_def Error_js_def)
  have v: "prop_js graphql_error ''errors'' = JArr [JObj [(''message'', JStr ''bad field'')]]"
    "prop_js (Error_js ''boom'') ''message'' = JStr ''boom''"
    "trace delivering = [EngineSubscribe (JObj []) (Some ''b'')]"
    "connectionSubscriptions delivering = [(''a'', 0), (''b'', 7)]"
    "subId_js (Some ''b'') = JStr ''b''"
    by (simp_all add: graphql_error_def Error_js_def delivering_def subscribed_def subId_js_def)
  from callback_forwards [OF h, of graphql_error plain_server JUndefined]
       callback_forwards [OF h, of "Error_js ''boom''" plain_server JUndefined]
       callback_forwards [OF h, of JNull plain_server "JObj [(''data'', JNum 1)]"]
       h t
  show ?thesis
    by (simp del: step.simps add: v)
qed

section \<open>Messages that are answered at once\<close>

text \<open>
  C7 (amended). A raw message that fails to decode is answered at once, whatever the state
  of the handshake, with a subscription-error whose id is \<^verbatim>\<open>null\<close> and whose payload carries
  the decode failure's message text; nothing else changes, so the connection stays open.
  It is not the only failure answered without waiting for the handshake: a decoded message
  of an unrecognized type is answered at once with the invalid-message-type error under the
  message's id. These are the only two: handling a handshake-init, subscription-start or
  subscription-end message sends no subscription-error by itself.
\<close>

theorem decode_failure_immediate:
  "step cfg s (Message (Malformed text)) =
     s\<lparr>trace := trace s @ [Send \<lparr>out_type = SUBSCRIPTION_FAIL, out_id = JNull,
        out_payload = JObj [(''errors'', JArr [JObj [(''message'', JStr text)]])]\<rparr>]\<rparr>
   \<and> (\<forall>m. msg_type m \<noteq> INIT \<and> msg_type m \<noteq> SUBSCRIPTION_START \<and> msg_type m \<noteq> SUBSCRIPTION_END \<longrightarrow>
         step cfg s (Message (Parsed m)) =
           s\<lparr>trace := trace s @ [Send \<lparr>out_type = SUBSCRIPTION_FAIL, out_id = subId_js (msg_id m),
             out_payload = JObj [(''errors'', JArr [JObj [(''message'', JStr ''Invalid message type!'')]])]\<rparr>]\<rparr>)
   \<and> (\<forall>m. msg_type m = INIT \<or> msg_type m = SUBSCRIPTION_START \<or> msg_type m = SUBSCRIPTION_END \<longrightarrow>
         filter is_fail (trace (step cfg s (Message (Parsed m)))) = filter is_fail (trace s))"
  apply (intro conjI allI impI)
    apply (simp add: onMessage_def sendSubscriptionFail_def emit_def errors_of_def)
   apply (simp add: onMessage_def sendSubscriptionFail_def emit_def errors_of_def split: message_type.splits)
  apply (auto simp add: onMessage_def onConnectPromise_def then_initPromise_def onInitResolve_def spawn_def emit_def
      split: option.splits promise_state.splits)
  done

theorem decode_failure_immediate_witness:
  "step plain_server accepted (Message (Malformed ''Unexpected token'')) =
     accepted\<lparr>trace := trace accepted @ [Send \<lparr>out_type = SUBSCRIPTION_FAIL, out_id = JNull,
        out_payload = JObj [(''errors'', JArr [JObj [(''message'', JStr ''Unexpected token'')]])]\<rparr>]\<rparr>
   \<and> msg_type (message KEEPALIVE (Some ''7'')) \<noteq> INIT
   \<and> msg_type (message KEEPALIVE (Some ''7'')) \<noteq> SUBSCRIPTION_START
   \<and> msg_type (message KEEPALIVE (Some ''7'')) \<noteq> SUBSCRIPTION_END
   \<and> step plain_server accepted (Message (Parsed (message KEEPALIVE (Some ''7'')))) =
       accepted\<lparr>trace := trace accepted @ [Send \<lparr>out_type = SUBSCRIPTION_FAIL,
         out_id = subId_js (msg_id (message KEEPALIVE (Some ''7''))),
         out_payload = JObj [(''errors'', JArr [JObj [(''message'', JStr ''Invalid message type!'')]])]\<rparr>]\<rparr>
   \<and> msg_type (message SUBSCRIPTION_START (Some ''7'')) = SUBSCRIPTION_START
   \<and> filter is_fail (trace (step plain_server accepted (Message (Parsed (message SUBSCRIPTION_START (Some ''7''))))))
       = filter is_fail (trace accepted)"
proof -
  have k: "msg_type (message KEEPALIVE (Some ''7'')) \<noteq> INIT
     \<and> msg_type (message KEEPALIVE (Some ''7'')) \<noteq> SUBSCRIPTION_START
     \<and> msg_type (message KEEPALIVE (Some ''7'')) \<noteq> SUBSCRIPTION_END"
    by (simp add: message_def)
  have st: "msg_type (message SUBSCRIPTION_START (Some ''7'')) = SUBSCRIPTION_START"
    by (simp add: message_def)
  from decode_failure_immediate [of plain_server accepted "''Unexpected token''"] k st
  show ?thesis by blast
qed

text \<open>
  C7 as stated fails: on a connection whose handshake is still pending, a message of the
  type keepalive, which the server does not accept from a client, is answered at once with
  a subscription-error.
\<close>

theorem decode_failure_only_bypass_counterexample:
  "initPromise accepted = Pending
   \<and> step plain_server accepted (Message (Parsed (message KEEPALIVE (Some ''7'')))) =
       accepted\<lparr>trace := [Send \<lparr>out_type = SUBSCRIPTION_FAIL, out_id = JStr ''7'',
         out_payload = JObj [(''errors'', JArr [JObj [(''message'', JStr ''Invalid message type!'')]])]\<rparr>]\<rparr>"
  by (simp add: accepted_def message_def onMessage_def sendSubscriptionFail_def emit_def
      errors_of_def subId_js_def)

section \<open>Params that are no object\<close>

text \<open>
  C9 (amended). When the before-subscribe hook resolves to a value whose \<^verbatim>\<open>typeof\<close> is not
  \<^verbatim>\<open>object\<close> (undefined, a boolean, a number, a string, a function), the continuation that
  receives the params and the \<^verbatim>\<open>catch\<close> continuation after it send two subscription-error
  messages for the id, both with the invalid-params text, the first from the inline check
  and the second from the \<^verbatim>\<open>catch\<close> callback; the engine is not called and the
  registry is unchanged, so no handle is installed.
\<close>

theorem invalid_params_two_errors:
  assumes "typeof_js params \<noteq> ''object''" and "i < length (tasks s)"
    and "tasks s ! i = StartSubscribe m (Fulfil params)"
  shows "run cfg s [Run i, Run (length (tasks s) - 1)] =
     s\<lparr>tasks := take i (tasks s) @ drop (Suc i) (tasks s),
       trace := trace s @
         [Send \<lparr>out_type = SUBSCRIPTION_FAIL, out_id = subId_js (msg_id m),
            out_payload = JObj [(''errors'', JArr [JObj [(''message'', JStr invalid_params)]])]\<rparr>,
          Send \<lparr>out_type = SUBSCRIPTION_FAIL, out_id = subId_js (msg_id m),
            out_payload = JObj [(''errors'', JArr [JObj [(''message'', JStr invalid_params)]])]\<rparr>]\<rparr>"
proof -
  let ?rest = "take i (tasks s) @ drop (Suc i) (tasks s)"
  have len: "length ?rest = length (tasks s) - 1" using assms(2) by simp
  let ?fail = "Send \<lparr>out_type = SUBSCRIPTION_FAIL, out_id = subId_js (msg_id m),
            out_payload = JObj [(''errors'', JArr [JObj [(''message'', JStr invalid_params)]])]\<rparr>"
  have s1: "step cfg s (Run i) = s\<lparr>tasks := ?rest @ [StartFail m (Error_js invalid_params)],
      trace := trace s @ [?fail]\<rparr>"
    using assms by (simp add: spawn_def sendSubscriptionFail_def emit_def errors_of_def)
  have t1: "tasks (step cfg s (Run i)) = ?rest @ [StartFail m (Error_js invalid_params)]"
    unfolding s1 by simp
  have "step cfg (step cfg s (Run i)) (Run (length ?rest)) =
      exec_task cfg (StartFail m (Error_js invalid_params))
        ((step cfg s (Run i))\<lparr>tasks := ?rest\<rparr>)"
    by (rule run_last [OF t1]) simp
  also have "\<dots> = s\<lparr>tasks := ?rest, trace := trace s @ [?fail, ?fail]\<rparr>"
    unfolding s1
    by (simp add: start_fail_def Error_js_def sendSubscriptionFail_def emit_def errors_of_def)
  finally have "step cfg (step cfg s (Run i)) (Run (length (tasks s) - 1)) =
      s\<lparr>tasks := ?rest, trace := trace s @ [?fail, ?fail]\<rparr>"
    unfolding len .
  then show ?thesis by (simp add: run_def)
qed

theorem invalid_params_two_errors_witness:
  "typeof_js (JNum 5) \<noteq> ''object'' \<and> 0 < length (tasks params_ready)
   \<and> tasks params_ready ! 0 = StartSubscribe (message SUBSCRIPTION_START (Some ''c'')) (Fulfil (JNum 5))
   \<and> run number_params_server params_ready [Run 0, Run (length (tasks params_ready) - 1)] =
     subscribed\<lparr>trace :=
         [Send \<lparr>out_type = SUBSCRIPTION_FAIL, out_id = JStr ''c'',
            out_payload = JObj [(''errors'', JArr [JObj [(''message'', JStr invalid_params)]])]\<rparr>,
          Send \<lparr>out_type = SUBSCRIPTION_FAIL, out_id = JStr ''c'',
            out_payload = JObj [(''errors'', JArr [JObj [(''message'', JStr invalid_params)]])]\<rparr>]\<rparr>"
proof -
  have a: "typeof_js (JNum 5) \<noteq> ''object''" by simp
  have l: "0 < length (tasks params_ready)" by (simp add: params_ready_def)
  have t: "tasks params_ready ! 0 = StartSubscribe (message SUBSCRIPTION_START (Some ''c'')) (Fulfil (JNum 5))"
    by (simp add: params_ready_def)
  have v: "params_ready\<lparr>tasks := take 0 (tasks params_ready) @ drop (Suc 0) (tasks params_ready),
       trace := trace params_ready @ xs\<rparr> = subscribed\<lparr>trace := xs\<rparr>" for xs
    by (simp add: params_ready_def subscribed_def accepted_def)
  have w: "subId_js (msg_id (message SUBSCRIPTION_START (Some ''c''))) = JStr ''c''"
    by (simp add: message_def subId_js_def)
  from invalid_params_two_errors [OF a l t, of number_params_server] a l t
  show ?thesis
    unfolding v w by blast
qed

text \<open>
  C9 as stated fails for the non-object value \<^verbatim>\<open>null\<close>, whose \<^verbatim>\<open>typeof\<close> is \<^verbatim>\<open>object\<close>: the
  inline check lets it pass, setting the callback on it throws, and the \<^verbatim>\<open>catch\<close> callback
  sends the one subscription-error of the connection.
\<close>

theorem null_params_one_error_counterexample:
  "typeof_js JNull = ''object'' \<and> \<not> isObject JNull
   \<and> trace (run null_params_server accepted
       [Message (Parsed (message INIT None)), Run 0, Run 0,
        Message (Parsed (message SUBSCRIPTION_START (Some ''1''))), Run 0, Run 0, Run 0]) =
     [Send \<lparr>out_type = INIT_SUCCESS, out_id = JUndefined, out_payload = JUndefined\<rparr>,
      Call_onSubscribe (message SUBSCRIPTION_START (Some ''1''))
        (baseParams (message SUBSCRIPTION_START (Some ''1'')) (JBool True)),
      Send \<lparr>out_type = SUBSCRIPTION_FAIL, out_id = JStr ''1'',
        out_payload = JObj [(''errors'', JArr [JObj [(''message'', JStr null_callback)]])]\<rparr>]"
  by (simp add: run_def null_params_server_def plain_server_def message_def accepted_def
      onMessage_def onConnectPromise_def onInitResolve_def then_initPromise_def spawn_def emit_def
      settle_initPromise_def init_respond_def sendInitResult_def start_setup_def
      replace_existing_def start_fail_def sendSubscriptionFail_def errors_of_def Error_js_def
      subId_js_def subId_key_def isObject_def)

section \<open>After a rejected handshake\<close>

text \<open>
  C10. Once the handshake promise is rejected, subscription-start and subscription-end
  messages change nothing at all on the connection: no response is sent, no hook or engine
  call is made, the registry and the scheduled continuations stay as they are. Their
  handlers attach a success callback only, so the same holds for the messages that were
  waiting when the promise was rejected: settling it schedules the handshake responses and
  nothing else.
\<close>

theorem rejected_handshake_silences:
  assumes "initPromise s = Settled (Reject e)" and "list_all subscription_message evs"
  shows "run cfg s evs = s
    \<and> tasks (settle_initPromise (Reject e) s') =
        tasks s' @ map (\<lambda>r. InitRespond (Reject e)) (filter (\<lambda>r. r = OnInit) (reactions s'))"
proof
  show "run cfg s evs = s"
    using assms
  proof (induction evs)
    case Nil
    then show ?case by (simp add: run_Nil)
  next
    case (Cons ev evs)
    then have "step cfg s ev = s" by (simp add: rejected_message_ignored)
    with Cons show ?case by (simp add: run_Cons)
  qed
  show "tasks (settle_initPromise (Reject e) s') =
        tasks s' @ map (\<lambda>r. InitRespond (Reject e)) (filter (\<lambda>r. r = OnInit) (reactions s'))"
    by (simp add: settle_initPromise_def spawn_def settle_reject_tasks)
qed

theorem rejected_handshake_silences_witness:
  "initPromise rejected = Settled (Reject (Error_js ''denied''))
   \<and> list_all subscription_message
       [Message (Parsed (message SUBSCRIPTION_START (Some ''1''))),
        Message (Parsed (message SUBSCRIPTION_END (Some ''1'')))]
   \<and> run throwing_server rejected
       [Message (Parsed (message SUBSCRIPTION_START (Some ''1''))),
        Message (Parsed (message SUBSCRIPTION_END (Some ''1'')))] = rejected"
proof -
  have r: "initPromise rejected = Settled (Reject (Error_js ''denied''))"
    by (simp add: rejected_eval)
  have l: "list_all subscription_message
       [Message (Parsed (message SUBSCRIPTION_START (Some ''1''))),
        Message (Parsed (message SUBSCRIPTION_END (Some ''1'')))]"
    by (simp add: message_def)
  from rejected_handshake_silences [OF r l, of throwing_server] r l show ?thesis
    by blast
qed

end
